theory Spec2Isabelle
  imports Main "HOL-Library.AList" "HOL-Library.Sublist" "HOL-Library.Multiset"
begin

section \<open>The exec approval store (gateway/exec-approval-manager.ts)\<close>

text \<open>
  Conventions of the embedding.
  \<^item> A JavaScript string is a \<open>string\<close>; a \<open>char\<close> stands for one UTF-16 code unit
    below 256.
  \<^item> Millisecond timestamps and durations are \<open>int\<close>; \<open>Math.floor\<close> is the identity on
    them.
  \<^item> An optional field (\<open>undefined\<close> or \<open>null\<close>) is \<open>None\<close>.
  \<^item> \<open>Date.now()\<close> and \<open>randomUUID()\<close> are read from the environment: the value each
    call returns is an argument of the operation that makes the call.
  \<^item> A promise created by \<open>waitForDecision\<close> and the timer armed with it are named by
    the number of the call that created them (\<open>next_handle\<close>).
\<close>

subsection \<open>Data model\<close>

text \<open>Modelled from the spec: the type \<open>ExecApprovalDecision\<close>, which the manager
  imports from infra/exec-approvals (not among the sources). The specification names
  the decisions allow-once, allow-always and deny.\<close>

datatype ExecApprovalDecision = AllowOnce | AllowAlways | Deny

record ExecApprovalRequestPayload =
  command :: string
  cwd :: "string option"
  host :: "string option"
  security :: "string option"
  ask :: "string option"
  agentId :: "string option"
  resolvedPath :: "string option"
  sessionKey :: "string option"

record ExecApprovalRecord =
  record_id :: string
  request :: ExecApprovalRequestPayload
  createdAtMs :: int
  expiresAtMs :: int
  resolvedAtMs :: "int option"
  decision :: "ExecApprovalDecision option"
  resolvedBy :: "string option"

record ExecApprovalPendingItem =
  item_id :: string
  item_command :: string
  item_createdAtMs :: int
  item_expiresAtMs :: int
  item_waitingMs :: int
  item_expiresInMs :: int
  item_agentId :: "string option"
  item_cwd :: "string option"
  item_host :: "string option"
  item_security :: "string option"
  item_ask :: "string option"
  item_resolvedPath :: "string option"
  item_sessionKey :: "string option"

text \<open>A pending entry holds the record, the \<open>resolve\<close> function of the promise the
  waiter is suspended on (named by the promise's number; \<open>reject\<close> is stored by the
  source and never called) and the handle of the expiry timer.\<close>

record PendingEntry =
  entry_record :: ExecApprovalRecord
  entry_resolve :: nat
  entry_timer :: nat

text \<open>The closure passed to \<open>setTimeout\<close> captures \<open>record.id\<close> and the promise's
  \<open>resolve\<close>; the delay is kept as it was passed.\<close>

record Timer =
  timer_record_id :: string
  timer_resolve :: nat
  timer_delay :: int

text \<open>
  The manager's state. \<open>pending\<close> is the \<open>Map\<close>, in insertion order. The three other
  lists make the effects of the methods explicit: \<open>timers\<close> are the armed timers of the
  event loop, \<open>settled\<close> logs every call of a promise's \<open>resolve\<close> function with its
  argument (\<open>None\<close> is \<open>null\<close>), \<open>stamped\<close> holds the record objects that
  \<open>resolve\<close> has written to (they have left the map; the caller of
  \<open>waitForDecision\<close> still holds them).
\<close>

record Store =
  pending :: "(string \<times> PendingEntry) list"
  timers :: "(nat \<times> Timer) list"
  settled :: "(nat \<times> ExecApprovalDecision option) list"
  stamped :: "ExecApprovalRecord list"
  next_handle :: nat

definition empty_store :: Store where
  "empty_store = \<lparr>pending = [], timers = [], settled = [], stamped = [], next_handle = 0\<rparr>"

subsection \<open>String helpers\<close>

text \<open>The white space and line terminators \<open>String.prototype.trim\<close> strips, among the
  code units below 256: TAB, LF, VT, FF, CR, SP and NBSP.\<close>

definition js_whitespace :: "char \<Rightarrow> bool" where
  "js_whitespace c = ((of_char c :: nat) \<in> {9, 10, 11, 12, 13, 32, 160})"

definition trim :: "string \<Rightarrow> string" where
  "trim s = rev (dropWhile js_whitespace (rev (dropWhile js_whitespace s)))"

definition normalizeOptionalString :: "string option \<Rightarrow> string option" where
  "normalizeOptionalString v =
     (case v of
        None \<Rightarrow> None
      | Some s \<Rightarrow> (let trimmed = trim s in if trimmed \<noteq> [] then Some trimmed else None))"

subsection \<open>The methods\<close>

text \<open>\<open>create\<close>: \<open>uuid\<close> is what \<open>randomUUID()\<close> returns, \<open>now\<close> what \<open>Date.now()\<close>
  returns. The method reads and writes no field of the manager; the state is passed
  through to say so.\<close>

definition create ::
  "string \<Rightarrow> int \<Rightarrow> ExecApprovalRequestPayload \<Rightarrow> int \<Rightarrow> string option \<Rightarrow> Store
     \<Rightarrow> ExecApprovalRecord \<times> Store" where
  "create uuid now req timeoutMs ido s =
     (let resolvedId =
            (case ido of
               None \<Rightarrow> uuid
             | Some i \<Rightarrow> if i \<noteq> [] \<and> length (trim i) > 0 then trim i else uuid)
      in (\<lparr>record_id = resolvedId, request = req, createdAtMs = now,
           expiresAtMs = now + timeoutMs, resolvedAtMs = None, decision = None,
           resolvedBy = None\<rparr>, s))"

text \<open>\<open>waitForDecision\<close> runs the promise executor at once: it arms the timer
  (a new handle, added to the armed timers), then
  stores the entry under \<open>record.id\<close> (\<open>Map.set\<close> replaces the value of a key that is
  present and keeps its position, and appends a new key). It returns the promise.\<close>

definition waitForDecision :: "ExecApprovalRecord \<Rightarrow> int \<Rightarrow> Store \<Rightarrow> nat \<times> Store" where
  "waitForDecision rec timeoutMs s =
     (let h = next_handle s;
          tm = \<lparr>timer_record_id = record_id rec, timer_resolve = h, timer_delay = timeoutMs\<rparr>;
          e = \<lparr>entry_record = rec, entry_resolve = h, entry_timer = h\<rparr>
      in (h, s\<lparr>timers := AList.update h tm (timers s),
               pending := AList.update (record_id rec) e (pending s),
               next_handle := Suc h\<rparr>))"

text \<open>Calling the \<open>resolve\<close> function of promise \<open>p\<close> with \<open>v\<close> resumes the waiter
  suspended on \<open>p\<close>; the call is appended to the log.\<close>

definition call_resolve :: "nat \<Rightarrow> ExecApprovalDecision option \<Rightarrow> Store \<Rightarrow> Store" where
  "call_resolve p v s = s\<lparr>settled := settled s @ [(p, v)]\<rparr>"

text \<open>The timer callback, run by the event loop when timer \<open>t\<close> expires. A timer that
  is not armed (cleared, or already run) does nothing; a timer that runs is no longer
  armed. The callback deletes \<open>record.id\<close> from the map (\<open>expire\<close>), then calls
  \<open>resolve(null)\<close>.\<close>

definition expire :: "nat \<Rightarrow> Timer \<Rightarrow> Store \<Rightarrow> Store" where
  "expire t tm s =
     (let s1 = s\<lparr>timers := AList.delete t (timers s)\<rparr>
      in s1\<lparr>pending := AList.delete (timer_record_id tm) (pending s1)\<rparr>)"

definition fire_timer :: "nat \<Rightarrow> Store \<Rightarrow> Store" where
  "fire_timer t s =
     (case map_of (timers s) t of
        None \<Rightarrow> s
      | Some tm \<Rightarrow> call_resolve (timer_resolve tm) None (expire t tm s))"

text \<open>\<open>resolve\<close>, statement by statement: look the entry up; then (\<open>finalize\<close>)
  \<open>clearTimeout\<close>, stamp the record, delete the entry; last, call the promise's
  \<open>resolve\<close> with the decision.\<close>

definition finalize ::
  "PendingEntry \<Rightarrow> string \<Rightarrow> ExecApprovalDecision \<Rightarrow> string option \<Rightarrow> int \<Rightarrow> Store \<Rightarrow> Store" where
  "finalize p recordId d by now s =
     (let s1 = s\<lparr>timers := AList.delete (entry_timer p) (timers s)\<rparr>;
          s2 = s1\<lparr>stamped := stamped s1 @
                 [(entry_record p)\<lparr>resolvedAtMs := Some now, decision := Some d,
                                   resolvedBy := by\<rparr>]\<rparr>
      in s2\<lparr>pending := AList.delete recordId (pending s2)\<rparr>)"

definition resolve ::
  "string \<Rightarrow> ExecApprovalDecision \<Rightarrow> string option \<Rightarrow> int \<Rightarrow> Store \<Rightarrow> bool \<times> Store" where
  "resolve recordId d by now s =
     (case map_of (pending s) recordId of
        None \<Rightarrow> (False, s)
      | Some p \<Rightarrow> (True, call_resolve (entry_resolve p) (Some d) (finalize p recordId d by now s)))"

definition getSnapshot :: "string \<Rightarrow> Store \<Rightarrow> ExecApprovalRecord option" where
  "getSnapshot recordId s = map_option entry_record (map_of (pending s) recordId)"

text \<open>\<open>Array.prototype.toSorted\<close> is a stable sort; with a consistent comparator its
  result is that of a stable insertion sort.\<close>

fun insort_cmp :: "('a \<Rightarrow> 'a \<Rightarrow> int) \<Rightarrow> 'a \<Rightarrow> 'a list \<Rightarrow> 'a list" where
  "insort_cmp c x [] = [x]"
| "insort_cmp c x (y # ys) = (if c x y \<le> 0 then x # y # ys else y # insort_cmp c x ys)"

definition toSorted :: "('a \<Rightarrow> 'a \<Rightarrow> int) \<Rightarrow> 'a list \<Rightarrow> 'a list" where
  "toSorted c xs = foldr (insort_cmp c) xs []"

definition pending_item :: "int \<Rightarrow> ExecApprovalRecord \<Rightarrow> ExecApprovalPendingItem" where
  "pending_item now rec =
     \<lparr>item_id = record_id rec,
      item_command = command (request rec),
      item_createdAtMs = createdAtMs rec,
      item_expiresAtMs = expiresAtMs rec,
      item_waitingMs = max 0 (now - createdAtMs rec),
      item_expiresInMs = max 0 (expiresAtMs rec - now),
      item_agentId = normalizeOptionalString (agentId (request rec)),
      item_cwd = normalizeOptionalString (cwd (request rec)),
      item_host = normalizeOptionalString (host (request rec)),
      item_security = normalizeOptionalString (security (request rec)),
      item_ask = normalizeOptionalString (ask (request rec)),
      item_resolvedPath = normalizeOptionalString (resolvedPath (request rec)),
      item_sessionKey = normalizeOptionalString (sessionKey (request rec))\<rparr>"

text \<open>The comparator of \<open>listPending\<close>. \<open>localeCompare\<close> is the platform's string
  comparison; it is the parameter \<open>lc\<close>.\<close>

definition item_cmp ::
  "(string \<Rightarrow> string \<Rightarrow> int) \<Rightarrow> ExecApprovalPendingItem \<Rightarrow> ExecApprovalPendingItem \<Rightarrow> int" where
  "item_cmp lc a b =
     (let d = item_createdAtMs a - item_createdAtMs b
      in if d \<noteq> 0 then d else lc (item_id a) (item_id b))"

text \<open>The argument \<open>nowMs\<close> of \<open>listPending\<close>: omitted, a finite number, or a
  number that is not finite (\<open>NaN\<close>, an infinity). An omitted argument defaults to
  \<open>Date.now()\<close> and is then treated as a finite one; a number that is not finite is
  replaced by \<open>Date.now()\<close> as it is. \<open>clock\<close> is what \<open>Date.now()\<close> returns.\<close>

datatype now_arg = Omitted | Finite int | NotFinite

fun effective_now :: "int \<Rightarrow> now_arg \<Rightarrow> int" where
  "effective_now clock Omitted = max 0 clock"
| "effective_now clock (Finite n) = max 0 n"
| "effective_now clock NotFinite = clock"

definition listPending ::
  "(string \<Rightarrow> string \<Rightarrow> int) \<Rightarrow> int \<Rightarrow> now_arg \<Rightarrow> Store \<Rightarrow> ExecApprovalPendingItem list" where
  "listPending lc clock nowMs s =
     (let now = effective_now clock nowMs
      in toSorted (item_cmp lc) (map (\<lambda>kv. pending_item now (entry_record (snd kv))) (pending s)))"

section \<open>Executions of the store\<close>

text \<open>The operations that change the manager's state: a call of \<open>waitForDecision\<close>, a
  call of \<open>resolve\<close>, and the event loop running a timer callback. A run applies a list
  of them from left to right.\<close>

datatype store_op =
  Wait ExecApprovalRecord int
| Resolve string ExecApprovalDecision "string option" int
| Fire nat

fun store_step :: "store_op \<Rightarrow> Store \<Rightarrow> Store" where
  "store_step (Wait rec timeoutMs) s = snd (waitForDecision rec timeoutMs s)"
| "store_step (Resolve recordId d by now) s = snd (resolve recordId d by now s)"
| "store_step (Fire t) s = fire_timer t s"

definition run_store :: "store_op list \<Rightarrow> Store \<Rightarrow> Store" where
  "run_store ops s = foldl (\<lambda>s' op. store_step op s') s ops"

text \<open>The invariant of the manager's state: map keys and timer handles are distinct;
  an armed timer was handed out by an earlier call and resolves the promise created with
  it; every pending entry is stored under its record's id and its own timer is armed for
  that id; a promise whose \<open>resolve\<close> was called has no armed timer and was called once.\<close>

definition store_inv :: "Store \<Rightarrow> bool" where
  "store_inv s \<longleftrightarrow>
     distinct (map fst (pending s)) \<and>
     distinct (map fst (timers s)) \<and>
     (\<forall>t tm. map_of (timers s) t = Some tm \<longrightarrow> t < next_handle s \<and> timer_resolve tm = t) \<and>
     (\<forall>k e. map_of (pending s) k = Some e \<longrightarrow>
        record_id (entry_record e) = k \<and> entry_resolve e = entry_timer e \<and>
        (\<exists>tm. map_of (timers s) (entry_timer e) = Some tm \<and> timer_record_id tm = k)) \<and>
     (\<forall>p v. (p, v) \<in> set (settled s) \<longrightarrow> p < next_handle s \<and> map_of (timers s) p = None) \<and>
     distinct (map fst (settled s))"

text \<open>How many times the \<open>resolve\<close> function of promise \<open>p\<close> has been called.\<close>

definition times_resumed :: "nat \<Rightarrow> Store \<Rightarrow> nat" where
  "times_resumed p s = length (filter (\<lambda>c. fst c = p) (settled s))"

text \<open>An operation that neither resolves record id \<open>k\<close> nor runs timer \<open>t\<close>.\<close>

fun leaves_alone :: "string \<Rightarrow> nat \<Rightarrow> store_op \<Rightarrow> bool" where
  "leaves_alone k t (Wait rec timeoutMs) = True"
| "leaves_alone k t (Resolve recordId d by now) = (recordId \<noteq> k)"
| "leaves_alone k t (Fire t') = (t' \<noteq> t)"




text \<open>A promise whose timer is armed and whose entry is no longer in the map (no entry
  holds its timer).\<close>

definition orphaned :: "nat \<Rightarrow> Timer \<Rightarrow> Store \<Rightarrow> bool" where
  "orphaned t tm s \<longleftrightarrow>
     store_inv s \<and> map_of (timers s) t = Some tm \<and>
     (\<forall>k e. map_of (pending s) k = Some e \<longrightarrow> entry_timer e \<noteq> t)"

text \<open>An operation other than the run of timer \<open>t\<close>.\<close>

fun not_fire :: "nat \<Rightarrow> store_op \<Rightarrow> bool" where
  "not_fire t (Fire t') = (t' \<noteq> t)"
| "not_fire t (Wait rec timeoutMs) = True"
| "not_fire t (Resolve recordId d by now) = True"

section \<open>Auxiliary definitions for the listing\<close>

text \<open>Lexicographic comparison of two sequences of numbers, with result \<open>-1\<close>, \<open>0\<close> or
  \<open>1\<close>; and the comparison of two strings by their code units, which is the
  lexicographic comparison of ids in the plain sense.\<close>

fun compare_units :: "nat list \<Rightarrow> nat list \<Rightarrow> int" where
  "compare_units [] [] = 0"
| "compare_units [] (y # ys) = - 1"
| "compare_units (x # xs) [] = 1"
| "compare_units (x # xs) (y # ys) =
     (if x < y then - 1 else if y < x then 1 else compare_units xs ys)"


text \<open>
  \<open>String.prototype.localeCompare\<close> is the platform's collation (ECMA-402, with the
  root collation of CLDR for the default locale). The model covers ASCII:
  \<^item> control characters other than TAB, LF, VT, FF and CR are ignored;
  \<^item> at the first level the characters compare in the order TAB, LF, VT, FF, CR, space,
    \<^verbatim>\<open>_ - , ; : ! ? . ' " ( ) [ ] { } @ * / \ & # % ` ^ + < = > | ~ $\<close>, the digits, the
    letters, a letter and its capital being equal;
  \<^item> strings equal at the first level compare by case, lower case first, at the first
    position where the case differs.
  A code unit above 127 is outside the model: it is placed after the letters, in the
  order of the code units.
\<close>

definition collation_order :: "nat list" where
  "collation_order =
     [9, 10, 11, 12, 13, 32,
      95, 45, 44, 59, 58, 33, 63, 46, 39, 34, 40, 41, 91, 93, 123, 125,
      64, 42, 47, 92, 38, 35, 37, 96, 94, 43, 60, 61, 62, 124, 126, 36] @
     [48 ..< 58] @ [97 ..< 123]"

fun index_of :: "nat \<Rightarrow> nat list \<Rightarrow> nat" where
  "index_of c [] = 0"
| "index_of c (x # xs) = (if x = c then 0 else Suc (index_of c xs))"

definition is_capital :: "nat \<Rightarrow> bool" where
  "is_capital c = (65 \<le> c \<and> c \<le> 90)"

definition primary_weight :: "nat \<Rightarrow> nat" where
  "primary_weight c =
     (if c < 128 then index_of (if is_capital c then c + 32 else c) collation_order
      else length collation_order + c)"

definition case_weight :: "nat \<Rightarrow> nat" where
  "case_weight c = (if is_capital c then 1 else 0)"

definition ignorable :: "nat \<Rightarrow> bool" where
  "ignorable c = (c < 9 \<or> (13 < c \<and> c < 32) \<or> c = 127)"

definition collation_units :: "string \<Rightarrow> nat list" where
  "collation_units a = filter (\<lambda>c. \<not> ignorable c) (map of_char a)"

definition localeCompare :: "string \<Rightarrow> string \<Rightarrow> int" where
  "localeCompare a b =
     (let c = compare_units (map primary_weight (collation_units a))
                (map primary_weight (collation_units b))
      in if c \<noteq> 0 then c
         else compare_units (map case_weight (collation_units a))
                (map case_weight (collation_units b)))"




section \<open>Example states\<close>

definition ex_request :: ExecApprovalRequestPayload where
  "ex_request =
     \<lparr>command = ''echo ok'', cwd = Some '' /tmp '', host = Some ''  '', security = None,
      ask = None, agentId = None, resolvedPath = None, sessionKey = None\<rparr>"

definition ex_record_a :: ExecApprovalRecord where
  "ex_record_a = fst (create ''uuid-1'' 0 ex_request 10 (Some '' a '') empty_store)"

definition ex_record_b :: ExecApprovalRecord where
  "ex_record_b = fst (create ''uuid-2'' 0 ex_request 20 (Some ''B'') empty_store)"

definition ex_store_a :: Store where
  "ex_store_a = snd (waitForDecision ex_record_a 10 empty_store)"

definition ex_store_ab :: Store where
  "ex_store_ab = snd (waitForDecision ex_record_b 20 ex_store_a)"


definition ex_record_a2 :: ExecApprovalRecord where
  "ex_record_a2 = fst (create ''uuid-3'' 5 ex_request 30 (Some ''a'') ex_store_a)"

section \<open>The request handlers (gateway/server-methods/exec-approval.ts)\<close>

text \<open>
  Modelled from the spec: the three handlers \<open>exec.approval.request\<close>,
  \<open>exec.approval.resolve\<close> and \<open>exec.approval.pending\<close> built by
  \<open>createExecApprovalHandlers\<close>. Their file is not among the sources; only its test
  is. The definitions follow sections 2 and 4.2 of the specification, and call the store's
  methods as defined above. The handlers are given parameters that already have the shape
  the validators accept, except for the keys of the \<open>pending\<close> call.

  The observable behaviour of the gateway is the sequence of its broadcasts and of the
  calls of \<open>respond\<close>; a response is tagged with the \<open>req.id\<close> of the call it
  answers.
\<close>

datatype broadcast_event =
  Requested ExecApprovalPendingItem
| Resolved string ExecApprovalDecision "string option"

datatype response =
  Request_ok string "ExecApprovalDecision option"
| Resolve_ok
| Pending_ok int "ExecApprovalPendingItem list"
| Failure string

datatype event = Broadcast broadcast_event | Respond string response

text \<open>Modelled from the spec: the state the handlers work on. \<open>store\<close> is the manager,
  \<open>trace\<close> the events observed so far, \<open>awaiting\<close> the \<open>request\<close> calls suspended at
  their \<open>await\<close>: the promise each waits for, with the call's \<open>req.id\<close> and the id of
  its record.\<close>

record Gateway =
  store :: Store
  trace :: "event list"
  awaiting :: "(nat \<times> string \<times> string) list"

definition empty_gateway :: Gateway where
  "empty_gateway = \<lparr>store = empty_store, trace = [], awaiting = []\<rparr>"

record RequestParams =
  p_id :: "string option"
  p_request :: ExecApprovalRequestPayload
  p_timeoutMs :: int

definition respond :: "string \<Rightarrow> response \<Rightarrow> Gateway \<Rightarrow> Gateway" where
  "respond req r g = g\<lparr>trace := trace g @ [Respond req r]\<rparr>"

definition broadcast :: "broadcast_event \<Rightarrow> Gateway \<Rightarrow> Gateway" where
  "broadcast b g = g\<lparr>trace := trace g @ [Broadcast b]\<rparr>"

text \<open>Modelled from the spec: the \<open>resolve\<close> handler. It calls \<open>Store.resolve\<close>; if
  that returns \<open>false\<close> it responds with failure, otherwise it emits the \<open>resolved\<close>
  broadcast carrying id, decision and \<open>resolvedBy\<close>, and responds with success
  (\<open>{ok: true}\<close> in the test).\<close>

definition handle_resolve ::
  "string \<Rightarrow> int \<Rightarrow> string \<Rightarrow> ExecApprovalDecision \<Rightarrow> string option \<Rightarrow> Gateway \<Rightarrow> Gateway" where
  "handle_resolve req now i d by g =
     (case resolve i d by now (store g) of
        (False, st) \<Rightarrow> respond req (Failure ''unknown approval id'') g
      | (True, st) \<Rightarrow> respond req Resolve_ok (broadcast (Resolved i d by) (g\<lparr>store := st\<rparr>)))"

text \<open>Modelled from the spec: the broadcast channel's observers, which the handlers only
  reach through \<open>context.broadcast\<close>. An observer of the \<open>requested\<close> broadcast
  either does nothing during delivery, or (as in the test "accepts resolve during
  broadcast") calls the \<open>resolve\<close> handler for the id of the payload before the
  broadcast returns.\<close>

datatype listener = Passive | Resolver string ExecApprovalDecision "string option"

text \<open>
  Modelled from the spec: the duplicate check of the \<open>request\<close> handler. A supplied
  \<open>params.id\<close> is a duplicate when it is pending, as supplied or as the id \<open>create\<close>
  gives the record (the supplied id trimmed, when that is not empty): the id is the
  key of duplicate detection, and a second record for an id that is pending must fail
  without changing any state.
\<close>

definition duplicate_id :: "RequestParams \<Rightarrow> Store \<Rightarrow> bool" where
  "duplicate_id p st =
     (case p_id p of
        None \<Rightarrow> False
      | Some i \<Rightarrow>
          getSnapshot i st \<noteq> None \<or> (trim i \<noteq> [] \<and> getSnapshot (trim i) st \<noteq> None))"

text \<open>
  Modelled from the spec: the \<open>request\<close> handler, up to its \<open>await\<close>. If \<open>params.id\<close>
  is supplied and already pending it responds with failure and does nothing else.
  Otherwise, in the order the specification gives: it creates the record, emits the
  \<open>requested\<close> broadcast with the pending snapshot of the new record (the observers run
  during the broadcast), then calls \<open>waitForDecision\<close>, which registers the record and
  returns the promise, and suspends on the promise.
\<close>

definition handle_request ::
  "string \<Rightarrow> int \<Rightarrow> string \<Rightarrow> listener \<Rightarrow> RequestParams \<Rightarrow> Gateway \<Rightarrow> Gateway" where
  "handle_request req now uuid lsn p g =
     (if duplicate_id p (store g)
      then respond req (Failure ''approval id already pending'') g
      else
        (let (rec, st0) = create uuid now (p_request p) (p_timeoutMs p) (p_id p) (store g);
             g1 = broadcast (Requested (pending_item now rec)) (g\<lparr>store := st0\<rparr>);
             g2 = (case lsn of
                     Passive \<Rightarrow> g1
                   | Resolver req2 d by \<Rightarrow> handle_resolve req2 now (record_id rec) d by g1);
             (promise, st1) = waitForDecision rec (p_timeoutMs p) (store g2)
         in g2\<lparr>store := st1,
              awaiting := AList.update promise (req, record_id rec) (awaiting g2)\<rparr>))"

text \<open>Modelled from the spec: the \<open>pending\<close> handler. \<open>keys\<close> are the keys of the
  params object; the method's shape has none. \<open>detail\<close> is the validator's description
  of the errors, which the specification leaves open.\<close>

definition handle_pending ::
  "(string \<Rightarrow> string \<Rightarrow> int) \<Rightarrow> string \<Rightarrow> int \<Rightarrow> string \<Rightarrow> string list \<Rightarrow> Gateway \<Rightarrow> Gateway" where
  "handle_pending lc req now detail keys g =
     (if keys \<noteq> []
      then respond req (Failure (''invalid exec.approval.pending params: '' @ detail)) g
      else respond req (Pending_ok now (listPending lc now (Finite now) (store g))) g)"

text \<open>Modelled from the spec: the rest of the \<open>request\<close> handler, after its
  \<open>await\<close>. Once the promise is resolved
  with \<open>v\<close>, a microtask runs it, and it responds with success carrying the id and the
  decision. \<open>run_microtasks\<close> runs the continuations of all resolved promises that are
  awaited, in the order of resolution.\<close>

definition resume_one :: "nat \<times> ExecApprovalDecision option \<Rightarrow> Gateway \<Rightarrow> Gateway" where
  "resume_one c g =
     (case map_of (awaiting g) (fst c) of
        None \<Rightarrow> g
      | Some (req, i) \<Rightarrow>
          (respond req (Request_ok i (snd c)) g)\<lparr>awaiting := AList.delete (fst c) (awaiting g)\<rparr>)"

definition run_microtasks :: "Gateway \<Rightarrow> Gateway" where
  "run_microtasks g = foldl (\<lambda>g' c. resume_one c g') g (settled (store g))"

text \<open>Modelled from the spec: the tasks of the event loop, a call of one of the three
  handlers or a timer callback of the store. Each task runs to its end (for
  \<open>request\<close>: to its \<open>await\<close>), then the microtasks run.\<close>

datatype task =
  Request string int string listener RequestParams
| ResolveCall string int string ExecApprovalDecision "string option"
| PendingCall string int string "string list"
| TimerFires nat

fun task_body :: "(string \<Rightarrow> string \<Rightarrow> int) \<Rightarrow> task \<Rightarrow> Gateway \<Rightarrow> Gateway" where
  "task_body lc (Request req now uuid lsn p) g = handle_request req now uuid lsn p g"
| "task_body lc (ResolveCall req now i d by) g = handle_resolve req now i d by g"
| "task_body lc (PendingCall req now detail keys) g = handle_pending lc req now detail keys g"
| "task_body lc (TimerFires t) g = g\<lparr>store := fire_timer t (store g)\<rparr>"

definition gateway_step :: "(string \<Rightarrow> string \<Rightarrow> int) \<Rightarrow> task \<Rightarrow> Gateway \<Rightarrow> Gateway" where
  "gateway_step lc tk g = run_microtasks (task_body lc tk g)"

definition run_gateway :: "(string \<Rightarrow> string \<Rightarrow> int) \<Rightarrow> task list \<Rightarrow> Gateway \<Rightarrow> Gateway" where
  "run_gateway lc tks g = foldl (\<lambda>g' tk. gateway_step lc tk g') g tks"

text \<open>The ids of the \<open>requested\<close> broadcasts of a trace, and the property that every
  \<open>resolved\<close> broadcast comes after a \<open>requested\<close> broadcast for the same id
  (\<open>seen\<close> are the ids requested before the trace starts).\<close>

fun requested_ids :: "event list \<Rightarrow> string list" where
  "requested_ids [] = []"
| "requested_ids (Broadcast (Requested it) # es) = item_id it # requested_ids es"
| "requested_ids (Broadcast (Resolved i d by) # es) = requested_ids es"
| "requested_ids (Respond req r # es) = requested_ids es"

fun requested_first_from :: "string set \<Rightarrow> event list \<Rightarrow> bool" where
  "requested_first_from seen [] = True"
| "requested_first_from seen (Broadcast (Requested it) # es) =
     requested_first_from (insert (item_id it) seen) es"
| "requested_first_from seen (Broadcast (Resolved i d by) # es) =
     (i \<in> seen \<and> requested_first_from seen es)"
| "requested_first_from seen (Respond req r # es) = requested_first_from seen es"

definition requested_first :: "event list \<Rightarrow> bool" where
  "requested_first tr = requested_first_from {} tr"

text \<open>The broadcasts of a trace, in order.\<close>

fun broadcasts :: "event list \<Rightarrow> broadcast_event list" where
  "broadcasts [] = []"
| "broadcasts (Broadcast b # es) = b # broadcasts es"
| "broadcasts (Respond req r # es) = broadcasts es"

text \<open>The invariant of the gateway between tasks, in two parts. For the store and the
  suspended calls: the store's invariant; every pending entry's promise is awaited by a
  \<open>request\<close> call for that id; no resolved promise is still awaited; awaited promises
  were handed out by the store. For the store and the trace: every pending id has been
  broadcast as requested; every \<open>resolved\<close> broadcast follows a \<open>requested\<close> one.\<close>

definition sa_inv :: "Store \<Rightarrow> (nat \<times> string \<times> string) list \<Rightarrow> bool" where
  "sa_inv st aw \<longleftrightarrow>
     store_inv st \<and>
     (\<forall>k e. map_of (pending st) k = Some e \<longrightarrow>
        (\<exists>req. map_of aw (entry_resolve e) = Some (req, k))) \<and>
     (\<forall>p v. (p, v) \<in> set (settled st) \<longrightarrow> map_of aw p = None) \<and>
     (\<forall>p x. map_of aw p = Some x \<longrightarrow> p < next_handle st)"

definition tr_inv :: "Store \<Rightarrow> event list \<Rightarrow> bool" where
  "tr_inv st tr \<longleftrightarrow>
     fst ` set (pending st) \<subseteq> set (requested_ids tr) \<and> requested_first tr"

definition gw_inv :: "Gateway \<Rightarrow> bool" where
  "gw_inv g \<longleftrightarrow> sa_inv (store g) (awaiting g) \<and> tr_inv (store g) (trace g)"

text \<open>Example: the first call of the test "rejects duplicate approval ids".\<close>

definition ex_params_dup :: RequestParams where
  "ex_params_dup = \<lparr>p_id = Some ''dup-1'', p_request = ex_request, p_timeoutMs = 10\<rparr>"

definition ex_gateway_dup :: Gateway where
  "ex_gateway_dup =
     gateway_step localeCompare (Request ''req-1'' 0 ''uuid-1'' Passive ex_params_dup) empty_gateway"



section \<open>Properties of the store\<close>

lemma map_of_None_keys: "map_of al k = None \<longleftrightarrow> k \<notin> fst ` set al"
  by (simp add: map_of_eq_None_iff)

text \<open>
  C4. For an id that is not in the pending map, \<open>resolve\<close> returns \<open>false\<close> and the
  state after the call is the state before it: the pending map with its records, the
  armed timers and the log of resumed waiters are all unchanged.
\<close>

theorem resolve_not_pending:
  assumes "recordId \<notin> fst ` set (pending s)"
  shows "resolve recordId d by now s = (False, s)"
proof -
  from assms have "map_of (pending s) recordId = None"
    by (simp add: map_of_None_keys)
  then show ?thesis
    by (simp add: resolve_def)
qed

theorem resolve_not_pending_witness:
  "''ghost'' \<notin> fst ` set (pending empty_store) \<and>
   resolve ''ghost'' Deny None 5 empty_store = (False, empty_store)"
  using resolve_not_pending [of "''ghost''" empty_store Deny None 5]
  by (simp add: empty_store_def)

text \<open>
  C6. \<open>create\<close> returns a record with \<open>createdAtMs = now\<close> and
  \<open>expiresAtMs = createdAtMs + timeoutMs\<close>; its id is the supplied id, trimmed, when that
  is not empty after trimming, and otherwise the id \<open>randomUUID()\<close> generated; the
  store is left as it was, so \<open>getSnapshot\<close> and \<open>listPending\<close> answer as before and no
  timer is armed.
\<close>

theorem create_record:
  "createdAtMs (fst (create uuid now req timeoutMs ido s)) = now \<and>
   expiresAtMs (fst (create uuid now req timeoutMs ido s)) =
     createdAtMs (fst (create uuid now req timeoutMs ido s)) + timeoutMs \<and>
   request (fst (create uuid now req timeoutMs ido s)) = req \<and>
   record_id (fst (create uuid now req timeoutMs ido s)) =
     (case ido of
        Some i \<Rightarrow> if trim i \<noteq> [] then trim i else uuid
      | None \<Rightarrow> uuid) \<and>
   snd (create uuid now req timeoutMs ido s) = s \<and>
   getSnapshot k (snd (create uuid now req timeoutMs ido s)) = getSnapshot k s \<and>
   listPending lc clock nowMs (snd (create uuid now req timeoutMs ido s)) =
     listPending lc clock nowMs s \<and>
   timers (snd (create uuid now req timeoutMs ido s)) = timers s"
proof -
  have t: "trim [] = []"
    by (simp add: trim_def)
  show ?thesis
    by (cases ido) (auto simp: create_def Let_def t)
qed


theorem create_record_witness:
  "record_id (fst (create ''uuid-1'' 0 ex_request 10 (Some '' a '') empty_store)) = ''a'' \<and>
   record_id (fst (create ''uuid-1'' 0 ex_request 10 (Some ''  '') empty_store)) = ''uuid-1'' \<and>
   expiresAtMs (fst (create ''uuid-1'' 7 ex_request 10 None empty_store)) = 17 \<and>
   snd (create ''uuid-1'' 7 ex_request 10 None ex_store_a) = ex_store_a"
proof -
  have t: "trim '' a '' = ''a''" "trim ''  '' = []"
    by (simp_all add: trim_def js_whitespace_def)
  from create_record [of "''uuid-1''" 0 ex_request 10 "Some '' a ''" empty_store]
    create_record [of "''uuid-1''" 0 ex_request 10 "Some ''  ''" empty_store]
    create_record [of "''uuid-1''" 7 ex_request 10 None empty_store]
    create_record [of "''uuid-1''" 7 ex_request 10 None ex_store_a]
  show ?thesis by (simp add: t)
qed

section \<open>The listing\<close>




lemma mset_insort_cmp: "mset (insort_cmp c x ys) = add_mset x (mset ys)"
  by (induction ys) auto

lemma mset_toSorted: "mset (toSorted c xs) = mset xs"
  by (induction xs) (auto simp: toSorted_def mset_insort_cmp)










lemma trim_ex [simp]: "trim '' a '' = ''a''" "trim ''B'' = ''B''" "trim '' /tmp '' = ''/tmp''" "trim ''  '' = []"
  by (simp_all add: trim_def js_whitespace_def)


lemma ex_record_a_eq:
  "ex_record_a = \<lparr>record_id = ''a'', request = ex_request, createdAtMs = 0, expiresAtMs = 10,
       resolvedAtMs = None, decision = None, resolvedBy = None\<rparr>"
  by (simp add: ex_record_a_def create_def)

lemma ex_record_b_eq:
  "ex_record_b = \<lparr>record_id = ''B'', request = ex_request, createdAtMs = 0, expiresAtMs = 20,
       resolvedAtMs = None, decision = None, resolvedBy = None\<rparr>"
  by (simp add: ex_record_b_def create_def)

lemma ex_store_a_eq:
  "ex_store_a =
     \<lparr>pending = [(''a'', \<lparr>entry_record = ex_record_a, entry_resolve = 0, entry_timer = 0\<rparr>)],
      timers = [(0, \<lparr>timer_record_id = ''a'', timer_resolve = 0, timer_delay = 10\<rparr>)],
      settled = [], stamped = [], next_handle = 1\<rparr>"
  by (simp add: ex_store_a_def waitForDecision_def empty_store_def ex_record_a_eq)

lemma ex_store_ab_eq:
  "ex_store_ab =
     \<lparr>pending = [(''a'', \<lparr>entry_record = ex_record_a, entry_resolve = 0, entry_timer = 0\<rparr>),
                 (''B'', \<lparr>entry_record = ex_record_b, entry_resolve = 1, entry_timer = 1\<rparr>)],
      timers = [(0, \<lparr>timer_record_id = ''a'', timer_resolve = 0, timer_delay = 10\<rparr>),
                (1, \<lparr>timer_record_id = ''B'', timer_resolve = 1, timer_delay = 20\<rparr>)],
      settled = [], stamped = [], next_handle = 2\<rparr>"
  by (simp add: ex_store_ab_def waitForDecision_def ex_store_a_eq ex_record_b_eq)

lemma ex_record_a2_eq:
  "ex_record_a2 = \<lparr>record_id = ''a'', request = ex_request, createdAtMs = 5, expiresAtMs = 35,
       resolvedAtMs = None, decision = None, resolvedBy = None\<rparr>"
proof -
  have "trim ''a'' = ''a''" by (simp add: trim_def js_whitespace_def)
  then show ?thesis by (simp add: ex_record_a2_def create_def)
qed














section \<open>The invariant of the store\<close>

lemma store_invD:
  assumes "store_inv s"
  shows "distinct (map fst (pending s))"
    and "distinct (map fst (timers s))"
    and "\<And>t tm. map_of (timers s) t = Some tm \<Longrightarrow> t < next_handle s \<and> timer_resolve tm = t"
    and "\<And>k e. map_of (pending s) k = Some e \<Longrightarrow>
           record_id (entry_record e) = k \<and> entry_resolve e = entry_timer e \<and>
           (\<exists>tm. map_of (timers s) (entry_timer e) = Some tm \<and> timer_record_id tm = k)"
    and "\<And>p v. (p, v) \<in> set (settled s) \<Longrightarrow> p < next_handle s \<and> map_of (timers s) p = None"
    and "distinct (map fst (settled s))"
  using assms unfolding store_inv_def by blast+

lemma store_invI:
  assumes "distinct (map fst (pending s))"
    and "distinct (map fst (timers s))"
    and "\<And>t tm. map_of (timers s) t = Some tm \<Longrightarrow> t < next_handle s \<and> timer_resolve tm = t"
    and "\<And>k e. map_of (pending s) k = Some e \<Longrightarrow>
           record_id (entry_record e) = k \<and> entry_resolve e = entry_timer e \<and>
           (\<exists>tm. map_of (timers s) (entry_timer e) = Some tm \<and> timer_record_id tm = k)"
    and "\<And>p v. (p, v) \<in> set (settled s) \<Longrightarrow> p < next_handle s \<and> map_of (timers s) p = None"
    and "distinct (map fst (settled s))"
  shows "store_inv s"
  using assms unfolding store_inv_def by blast

lemma store_inv_empty: "store_inv empty_store"
  by (simp add: store_inv_def empty_store_def)

lemma settled_not_armed:
  assumes "store_inv s" and "map_of (timers s) t = Some tm"
  shows "t \<notin> fst ` set (settled s)"
proof
  assume "t \<in> fst ` set (settled s)"
  then obtain v where "(t, v) \<in> set (settled s)" by auto
  with store_invD(5) [OF assms(1)] have "map_of (timers s) t = None" by blast
  with assms(2) show False by simp
qed

lemma store_inv_waitForDecision:
  assumes inv: "store_inv s"
  shows "store_inv (snd (waitForDecision rec timeoutMs s))"
proof -
  let ?h = "next_handle s"
  let ?tm = "\<lparr>timer_record_id = record_id rec, timer_resolve = ?h, timer_delay = timeoutMs\<rparr>"
  let ?e = "\<lparr>entry_record = rec, entry_resolve = ?h, entry_timer = ?h\<rparr>"
  let ?s = "s\<lparr>timers := AList.update ?h ?tm (timers s),
              pending := AList.update (record_id rec) ?e (pending s),
              next_handle := Suc ?h\<rparr>"
  note D = store_invD [OF inv]
  have eq: "snd (waitForDecision rec timeoutMs s) = ?s"
    by (simp add: waitForDecision_def Let_def)
  have tm: "map_of (timers ?s) = (map_of (timers s))(?h \<mapsto> ?tm)"
    by (simp add: update_conv')
  have pe: "map_of (pending ?s) = (map_of (pending s))(record_id rec \<mapsto> ?e)"
    by (simp add: update_conv')
  have "store_inv ?s"
  proof (rule store_invI)
    show "distinct (map fst (pending ?s))" using D(1) by (simp add: distinct_update)
    show "distinct (map fst (timers ?s))" using D(2) by (simp add: distinct_update)
    show "distinct (map fst (settled ?s))" using D(6) by simp
  next
    fix t tm' assume "map_of (timers ?s) t = Some tm'"
    then show "t < next_handle ?s \<and> timer_resolve tm' = t"
      unfolding tm using D(3) [of t tm'] by (auto split: if_splits)
  next
    fix k e assume a: "map_of (pending ?s) k = Some e"
    show "record_id (entry_record e) = k \<and> entry_resolve e = entry_timer e \<and>
          (\<exists>tm. map_of (timers ?s) (entry_timer e) = Some tm \<and> timer_record_id tm = k)"
    proof (cases "k = record_id rec")
      case True
      with a have "e = ?e" unfolding pe by simp
      with True show ?thesis unfolding tm by simp
    next
      case False
      with a have old: "map_of (pending s) k = Some e" unfolding pe by simp
      from D(4) [OF old] obtain tm0 where
        t0: "map_of (timers s) (entry_timer e) = Some tm0" "timer_record_id tm0 = k"
        and r: "record_id (entry_record e) = k" "entry_resolve e = entry_timer e"
        by blast
      from D(3) [OF t0(1)] have "entry_timer e \<noteq> ?h" by simp
      with t0 r show ?thesis unfolding tm by simp
    qed
  next
    fix p v assume "(p, v) \<in> set (settled ?s)"
    then have "(p, v) \<in> set (settled s)" by simp
    from D(5) [OF this] show "p < next_handle ?s \<and> map_of (timers ?s) p = None"
      unfolding tm by simp
  qed
  with eq show ?thesis by simp
qed

lemma store_inv_fire_timer:
  assumes inv: "store_inv s"
  shows "store_inv (fire_timer t s)"
proof (cases "map_of (timers s) t")
  case None
  with inv show ?thesis by (simp add: fire_timer_def)
next
  case (Some tm)
  let ?s = "s\<lparr>timers := AList.delete t (timers s),
              pending := AList.delete (timer_record_id tm) (pending s),
              settled := settled s @ [(timer_resolve tm, None)]\<rparr>"
  note D = store_invD [OF inv]
  from D(3) [OF Some] have tr: "timer_resolve tm = t" and lt: "t < next_handle s"
    by simp_all
  have eq: "fire_timer t s = ?s"
    using Some by (simp add: fire_timer_def expire_def Let_def call_resolve_def)
  have tmap: "map_of (timers ?s) = (map_of (timers s))(t := None)"
    by (simp add: delete_conv')
  have pmap: "map_of (pending ?s) = (map_of (pending s))(timer_record_id tm := None)"
    by (simp add: delete_conv')
  have "store_inv ?s"
  proof (rule store_invI)
    show "distinct (map fst (pending ?s))" using D(1) by (simp add: distinct_delete)
    show "distinct (map fst (timers ?s))" using D(2) by (simp add: distinct_delete)
    show "distinct (map fst (settled ?s))"
      using D(6) settled_not_armed [OF inv Some] tr by simp
  next
    fix t' tm' assume "map_of (timers ?s) t' = Some tm'"
    then have "map_of (timers s) t' = Some tm'" unfolding tmap by (simp split: if_splits)
    from D(3) [OF this] show "t' < next_handle ?s \<and> timer_resolve tm' = t'" by simp
  next
    fix k e assume "map_of (pending ?s) k = Some e"
    then have k: "k \<noteq> timer_record_id tm" and old: "map_of (pending s) k = Some e"
      unfolding pmap by (simp_all split: if_splits)
    from D(4) [OF old] obtain tm0 where
      t0: "map_of (timers s) (entry_timer e) = Some tm0" "timer_record_id tm0 = k"
      and r: "record_id (entry_record e) = k" "entry_resolve e = entry_timer e"
      by blast
    from t0 k Some have "entry_timer e \<noteq> t" by auto
    with t0 r show "record_id (entry_record e) = k \<and> entry_resolve e = entry_timer e \<and>
          (\<exists>tm. map_of (timers ?s) (entry_timer e) = Some tm \<and> timer_record_id tm = k)"
      unfolding tmap by simp
  next
    fix p v assume "(p, v) \<in> set (settled ?s)"
    then consider "(p, v) \<in> set (settled s)" | "p = t" using tr by auto
    then show "p < next_handle ?s \<and> map_of (timers ?s) p = None"
    proof cases
      case 1
      from D(5) [OF 1] show ?thesis unfolding tmap by simp
    next
      case 2
      with lt show ?thesis unfolding tmap by simp
    qed
  qed
  with eq show ?thesis by simp
qed

lemma store_inv_resolve:
  assumes inv: "store_inv s"
  shows "store_inv (snd (resolve recordId d by now s))"
proof (cases "map_of (pending s) recordId")
  case None
  with inv show ?thesis by (simp add: resolve_def)
next
  case (Some e)
  let ?t = "entry_timer e"
  let ?s = "s\<lparr>timers := AList.delete ?t (timers s),
              stamped := stamped s @
                [(entry_record e)\<lparr>resolvedAtMs := Some now, decision := Some d,
                                  resolvedBy := by\<rparr>],
              pending := AList.delete recordId (pending s),
              settled := settled s @ [(entry_resolve e, Some d)]\<rparr>"
  note D = store_invD [OF inv]
  from D(4) [OF Some] obtain tm where
    tm: "map_of (timers s) ?t = Some tm" "timer_record_id tm = recordId"
    and er: "entry_resolve e = ?t"
    by blast
  from D(3) [OF tm(1)] have lt: "?t < next_handle s" by simp
  have eq: "snd (resolve recordId d by now s) = ?s"
    using Some by (simp add: resolve_def finalize_def Let_def call_resolve_def)
  have tmap: "map_of (timers ?s) = (map_of (timers s))(?t := None)"
    by (simp add: delete_conv')
  have pmap: "map_of (pending ?s) = (map_of (pending s))(recordId := None)"
    by (simp add: delete_conv')
  have "store_inv ?s"
  proof (rule store_invI)
    show "distinct (map fst (pending ?s))" using D(1) by (simp add: distinct_delete)
    show "distinct (map fst (timers ?s))" using D(2) by (simp add: distinct_delete)
    show "distinct (map fst (settled ?s))"
      using D(6) settled_not_armed [OF inv tm(1)] er by simp
  next
    fix t' tm' assume "map_of (timers ?s) t' = Some tm'"
    then have "map_of (timers s) t' = Some tm'" unfolding tmap by (simp split: if_splits)
    from D(3) [OF this] show "t' < next_handle ?s \<and> timer_resolve tm' = t'" by simp
  next
    fix k e' assume "map_of (pending ?s) k = Some e'"
    then have k: "k \<noteq> recordId" and old: "map_of (pending s) k = Some e'"
      unfolding pmap by (simp_all split: if_splits)
    from D(4) [OF old] obtain tm0 where
      t0: "map_of (timers s) (entry_timer e') = Some tm0" "timer_record_id tm0 = k"
      and r: "record_id (entry_record e') = k" "entry_resolve e' = entry_timer e'"
      by blast
    from t0 k tm have "entry_timer e' \<noteq> ?t" by auto
    with t0 r show "record_id (entry_record e') = k \<and> entry_resolve e' = entry_timer e' \<and>
          (\<exists>tm. map_of (timers ?s) (entry_timer e') = Some tm \<and> timer_record_id tm = k)"
      unfolding tmap by simp
  next
    fix p v assume "(p, v) \<in> set (settled ?s)"
    then consider "(p, v) \<in> set (settled s)" | "p = ?t" using er by auto
    then show "p < next_handle ?s \<and> map_of (timers ?s) p = None"
    proof cases
      case 1
      from D(5) [OF 1] show ?thesis unfolding tmap by simp
    next
      case 2
      with lt show ?thesis unfolding tmap by simp
    qed
  qed
  with eq show ?thesis by simp
qed

lemma store_inv_step: "store_inv s \<Longrightarrow> store_inv (store_step op s)"
  by (cases op) (simp_all add: store_inv_waitForDecision store_inv_resolve store_inv_fire_timer)

lemma store_inv_run: "store_inv s \<Longrightarrow> store_inv (run_store ops s)"
  unfolding run_store_def
  by (induction ops arbitrary: s) (simp_all add: store_inv_step)

lemma store_inv_reachable: "store_inv (run_store ops empty_store)"
  by (rule store_inv_run [OF store_inv_empty])

section \<open>Resolution and expiry\<close>

lemma resolve_Some:
  "map_of (pending s) k = Some e \<Longrightarrow>
   resolve k d by now s = (True, call_resolve (entry_resolve e) (Some d) (finalize e k d by now s))"
  by (simp add: resolve_def)

lemma fire_timer_Some:
  "map_of (timers s) t = Some tm \<Longrightarrow>
   fire_timer t s = call_resolve (timer_resolve tm) None (expire t tm s)"
  by (simp add: fire_timer_def)

lemma fire_timer_None: "map_of (timers s) t = None \<Longrightarrow> fire_timer t s = s"
  by (simp add: fire_timer_def)

lemma resolve_None: "map_of (pending s) k = None \<Longrightarrow> resolve k d by now s = (False, s)"
  by (simp add: resolve_def)

lemma finalize_fields:
  "map_of (pending (finalize e k d by now s)) = (map_of (pending s))(k := None)"
  "map_of (timers (finalize e k d by now s)) = (map_of (timers s))(entry_timer e := None)"
  "settled (finalize e k d by now s) = settled s"
  "next_handle (finalize e k d by now s) = next_handle s"
  by (simp_all add: finalize_def Let_def delete_conv')

lemma expire_fields:
  "map_of (pending (expire t tm s)) = (map_of (pending s))(timer_record_id tm := None)"
  "map_of (timers (expire t tm s)) = (map_of (timers s))(t := None)"
  "settled (expire t tm s) = settled s"
  "next_handle (expire t tm s) = next_handle s"
  by (simp_all add: expire_def Let_def delete_conv')

lemma call_resolve_fields:
  "pending (call_resolve p v s) = pending s"
  "timers (call_resolve p v s) = timers s"
  "settled (call_resolve p v s) = settled s @ [(p, v)]"
  "next_handle (call_resolve p v s) = next_handle s"
  by (simp_all add: call_resolve_def)

lemma waitForDecision_fields:
  "fst (waitForDecision rec timeoutMs s) = next_handle s"
  "map_of (pending (snd (waitForDecision rec timeoutMs s))) =
     (map_of (pending s))(record_id rec \<mapsto>
        \<lparr>entry_record = rec, entry_resolve = next_handle s, entry_timer = next_handle s\<rparr>)"
  "map_of (timers (snd (waitForDecision rec timeoutMs s))) =
     (map_of (timers s))(next_handle s \<mapsto>
        \<lparr>timer_record_id = record_id rec, timer_resolve = next_handle s,
         timer_delay = timeoutMs\<rparr>)"
  "settled (snd (waitForDecision rec timeoutMs s)) = settled s"
  "next_handle (snd (waitForDecision rec timeoutMs s)) = Suc (next_handle s)"
  by (simp_all add: waitForDecision_def Let_def update_conv')

lemma keys_map_of: "k \<notin> fst ` set al \<longleftrightarrow> map_of al k = None"
  by (simp add: map_of_eq_None_iff)


lemma run_store_Cons: "run_store (op # ops) s = run_store ops (store_step op s)"
  by (simp add: run_store_def)

lemma run_store_Nil: "run_store [] s = s"
  by (simp add: run_store_def)

lemma run_store_append: "run_store (ops @ ops') s = run_store ops' (run_store ops s)"
  by (simp add: run_store_def)







lemma not_resumed_while_armed:
  assumes "store_inv s" and "map_of (timers s) t = Some tm"
  shows "times_resumed t s = 0"
proof -
  from settled_not_armed [OF assms] have "filter (\<lambda>c. fst c = t) (settled s) = []"
    by (auto simp: filter_empty_conv)
  then show ?thesis by (simp add: times_resumed_def)
qed














section \<open>The timeout path\<close>

text \<open>An armed timer stays armed under every operation that neither runs it nor resolves
  the id it was armed for.\<close>

lemma armed_step:
  assumes inv: "store_inv s" and tm: "map_of (timers s) h = Some tm"
    and la: "leaves_alone (timer_record_id tm) h op"
  shows "map_of (timers (store_step op s)) h = Some tm"
proof (cases op)
  case (Wait rec timeoutMs)
  from store_invD(3) [OF inv tm] have "h \<noteq> next_handle s" by simp
  with Wait tm show ?thesis by (simp add: waitForDecision_fields)
next
  case (Resolve k d rby now)
  with la have k: "k \<noteq> timer_record_id tm" by simp
  show ?thesis
  proof (cases "map_of (pending s) k")
    case None
    with Resolve tm show ?thesis by (simp add: resolve_None)
  next
    case (Some e)
    from store_invD(4) [OF inv Some] obtain tm' where
      "map_of (timers s) (entry_timer e) = Some tm'" "timer_record_id tm' = k"
      by blast
    with k tm have "entry_timer e \<noteq> h" by auto
    with Resolve Some tm show ?thesis
      by (simp add: resolve_Some call_resolve_fields finalize_fields)
  qed
next
  case (Fire t)
  with la have "t \<noteq> h" by simp
  with Fire tm show ?thesis
    by (cases "map_of (timers s) t")
      (simp_all add: fire_timer_None fire_timer_Some call_resolve_fields expire_fields)
qed

lemma armed_run:
  assumes "store_inv s" and "map_of (timers s) h = Some tm"
    and "list_all (leaves_alone (timer_record_id tm) h) ops"
  shows "map_of (timers (run_store ops s)) h = Some tm"
  using assms
proof (induction ops arbitrary: s)
  case Nil
  then show ?case by (simp add: run_store_Nil)
next
  case (Cons op ops)
  from Cons.prems have la: "leaves_alone (timer_record_id tm) h op"
    and rest: "list_all (leaves_alone (timer_record_id tm) h) ops"
    by simp_all
  have "map_of (timers (store_step op s)) h = Some tm"
    by (rule armed_step [OF Cons.prems(1,2) la])
  moreover have "store_inv (store_step op s)"
    by (rule store_inv_step [OF Cons.prems(1)])
  ultimately show ?case
    using Cons.IH rest by (simp add: run_store_Cons)
qed

lemma item_id_pending_item: "item_id (pending_item now rec) = record_id rec"
  by (simp add: pending_item_def)

lemma listPending_ids:
  assumes inv: "store_inv s"
  shows "set (map item_id (listPending lc clock nowMs s)) = fst ` set (pending s)"
proof -
  let ?now = "effective_now clock nowMs"
  have "mset (listPending lc clock nowMs s) =
      mset (map (\<lambda>kv. pending_item ?now (entry_record (snd kv))) (pending s))"
    by (simp add: listPending_def mset_toSorted)
  then have "set (listPending lc clock nowMs s) =
      set (map (\<lambda>kv. pending_item ?now (entry_record (snd kv))) (pending s))"
    by (rule mset_eq_setD)
  then have "set (map item_id (listPending lc clock nowMs s)) =
      (\<lambda>kv. record_id (entry_record (snd kv))) ` set (pending s)"
    by (simp add: image_image item_id_pending_item)
  also have "\<dots> = fst ` set (pending s)"
  proof (rule image_cong [OF refl])
    fix kv assume m: "kv \<in> set (pending s)"
    obtain k e where kv: "kv = (k, e)" by (cases kv)
    from m kv store_invD(1) [OF inv] have "map_of (pending s) k = Some e" by simp
    from store_invD(4) [OF inv this] kv
    show "record_id (entry_record (snd kv)) = fst kv" by simp
  qed
  finally show ?thesis .
qed

text \<open>
  C3. A record is registered by \<open>waitForDecision\<close> in a reachable state; the call
  returns the promise \<open>h\<close> and the record is pending. After any operations among which
  there is no \<open>resolve\<close> for the record's id (and no run of its timer), the timer is
  still armed and the caller still suspended; when the timer then fires, the caller is
  resumed with \<open>null\<close>, once, and the id is neither in the pending map nor in the
  listing.
\<close>

theorem timeout_path:
  assumes reach: "s = run_store ops empty_store"
    and h: "h = fst (waitForDecision rec timeoutMs s)"
    and s1: "s1 = snd (waitForDecision rec timeoutMs s)"
    and quiet: "list_all (leaves_alone (record_id rec) h) ops'"
    and s2: "s2 = run_store ops' s1"
  shows "getSnapshot (record_id rec) s1 = Some rec \<and>
    map_of (timers s2) h =
      Some \<lparr>timer_record_id = record_id rec, timer_resolve = h, timer_delay = timeoutMs\<rparr> \<and>
    times_resumed h s2 = 0 \<and>
    settled (fire_timer h s2) = settled s2 @ [(h, None)] \<and>
    times_resumed h (fire_timer h s2) = 1 \<and>
    getSnapshot (record_id rec) (fire_timer h s2) = None \<and>
    record_id rec \<notin> set (map item_id (listPending lc clock nowMs (fire_timer h s2)))"
proof -
  let ?tm = "\<lparr>timer_record_id = record_id rec, timer_resolve = h, timer_delay = timeoutMs\<rparr>"
  from reach have inv: "store_inv s" by (simp add: store_inv_reachable)
  from h have h': "h = next_handle s" by (simp add: waitForDecision_fields)
  from inv s1 have inv1: "store_inv s1" by (simp add: store_inv_waitForDecision)
  from inv1 s2 have inv2: "store_inv s2" by (simp add: store_inv_run)
  have snap: "getSnapshot (record_id rec) s1 = Some rec"
    by (simp add: getSnapshot_def s1 waitForDecision_fields)
  have "map_of (timers s1) h = Some ?tm"
    by (simp add: s1 h' waitForDecision_fields)
  moreover from quiet have "list_all (leaves_alone (timer_record_id ?tm) h) ops'" by simp
  ultimately have armed: "map_of (timers s2) h = Some ?tm"
    unfolding s2 by (rule armed_run [OF inv1])
  have zero: "times_resumed h s2 = 0"
    by (rule not_resumed_while_armed [OF inv2 armed])
  have fire: "fire_timer h s2 = call_resolve h None (expire h ?tm s2)"
    using fire_timer_Some [OF armed] by simp
  then have log: "settled (fire_timer h s2) = settled s2 @ [(h, None)]"
    by (simp add: call_resolve_fields expire_fields)
  from zero log have one: "times_resumed h (fire_timer h s2) = 1"
    by (simp add: times_resumed_def)
  have gone: "map_of (pending (fire_timer h s2)) (record_id rec) = None"
    by (simp add: fire call_resolve_fields expire_fields)
  then have nosnap: "getSnapshot (record_id rec) (fire_timer h s2) = None"
    by (simp add: getSnapshot_def)
  have "store_inv (fire_timer h s2)" by (rule store_inv_fire_timer [OF inv2])
  from listPending_ids [OF this] gone
  have nolist: "record_id rec \<notin> set (map item_id (listPending lc clock nowMs (fire_timer h s2)))"
    by (simp add: keys_map_of)
  from snap armed zero log one nosnap nolist show ?thesis by (intro conjI)
qed

theorem timeout_path_witness:
  "getSnapshot ''B'' ex_store_ab = Some ex_record_b \<and>
   settled (fire_timer 1 (run_store [Resolve ''a'' Deny None 4] ex_store_ab)) =
     settled (run_store [Resolve ''a'' Deny None 4] ex_store_ab) @ [(1, None)] \<and>
   getSnapshot ''B'' (fire_timer 1 (run_store [Resolve ''a'' Deny None 4] ex_store_ab)) = None \<and>
   ''B'' \<notin> set (map item_id (listPending localeCompare 0 (Finite 30)
                  (fire_timer 1 (run_store [Resolve ''a'' Deny None 4] ex_store_ab))))"
proof -
  have r: "ex_store_a = run_store [Wait ex_record_a 10] empty_store"
    by (simp add: run_store_def ex_store_a_def)
  have h: "(1::nat) = fst (waitForDecision ex_record_b 20 ex_store_a)"
    by (simp add: waitForDecision_fields ex_store_a_eq)
  have s1: "ex_store_ab = snd (waitForDecision ex_record_b 20 ex_store_a)"
    by (simp add: ex_store_ab_def)
  have q: "list_all (leaves_alone (record_id ex_record_b) 1) [Resolve ''a'' Deny None 4]"
    by (simp add: ex_record_b_eq)
  note th = timeout_path [OF r h s1 q refl, of localeCompare 0 "Finite 30"]
  then show ?thesis by (simp add: ex_record_b_eq)
qed

section \<open>Registering an id that is already pending\<close>

text \<open>An orphaned promise can be resumed by its timer only: the situation persists
  under every other operation.\<close>

lemma orphaned_step:
  assumes o: "orphaned t tm s" and nf: "not_fire t op"
  shows "orphaned t tm (store_step op s)"
proof -
  from o have inv: "store_inv s" and tm: "map_of (timers s) t = Some tm"
    and ne: "\<And>k e. map_of (pending s) k = Some e \<Longrightarrow> entry_timer e \<noteq> t"
    by (auto simp: orphaned_def)
  have inv': "store_inv (store_step op s)" by (rule store_inv_step [OF inv])
  show ?thesis
  proof (cases op)
    case (Wait rec timeoutMs)
    from store_invD(3) [OF inv tm] have "t \<noteq> next_handle s" by simp
    with Wait tm ne inv' show ?thesis
      by (auto simp: orphaned_def waitForDecision_fields)
  next
    case (Resolve k d rby now)
    show ?thesis
    proof (cases "map_of (pending s) k")
      case None
      with Resolve o show ?thesis by (simp add: resolve_None)
    next
      case (Some e)
      from ne [OF Some] have "entry_timer e \<noteq> t" .
      with Resolve Some tm ne inv' show ?thesis
        by (auto simp: orphaned_def resolve_Some call_resolve_fields finalize_fields
            split: if_splits)
    qed
  next
    case (Fire t')
    with nf have "t' \<noteq> t" by simp
    show ?thesis
    proof (cases "map_of (timers s) t'")
      case None
      with Fire o show ?thesis by (simp add: fire_timer_None)
    next
      case (Some tm')
      with Fire \<open>t' \<noteq> t\<close> tm ne inv' show ?thesis
        by (auto simp: orphaned_def fire_timer_Some call_resolve_fields expire_fields
            split: if_splits)
    qed
  qed
qed

lemma orphaned_run:
  assumes "orphaned t tm s" and "list_all (not_fire t) ops"
  shows "orphaned t tm (run_store ops s)"
  using assms
proof (induction ops arbitrary: s)
  case Nil
  then show ?case by (simp add: run_store_Nil)
next
  case (Cons op ops)
  from Cons.prems have "orphaned t tm (store_step op s)"
    by (simp add: orphaned_step)
  with Cons show ?case by (simp add: run_store_Cons)
qed

lemma orphaned_not_resumed: "orphaned t tm s \<Longrightarrow> times_resumed t s = 0"
  by (auto simp: orphaned_def intro: not_resumed_while_armed)

text \<open>
  C10. \<open>waitForDecision\<close> makes no check of its own. Called in a reachable state with a
  record whose id is already pending, it replaces the entry of that id: the keys of the
  map and their order are the same, so the map does not grow, and the id now maps to the
  new entry with a new promise. From then on \<open>resolve\<close> for the id resumes the second
  waiter and not the first; the first waiter's timer is still armed, running it resumes
  the first waiter with \<open>null\<close>, and no sequence of other operations resumes the first
  waiter.
\<close>

theorem waitForDecision_replaces:
  assumes reach: "s = run_store ops empty_store"
    and e1: "map_of (pending s) (record_id rec) = Some e1"
    and h2: "h2 = fst (waitForDecision rec timeoutMs s)"
    and s': "s' = snd (waitForDecision rec timeoutMs s)"
    and others: "list_all (not_fire (entry_timer e1)) ops'"
  shows "map fst (pending s') = map fst (pending s) \<and>
    length (pending s') = length (pending s) \<and>
    map_of (pending s') (record_id rec) =
      Some \<lparr>entry_record = rec, entry_resolve = h2, entry_timer = h2\<rparr> \<and>
    h2 \<noteq> entry_resolve e1 \<and>
    resolve (record_id rec) d by now s' =
      (True, call_resolve h2 (Some d)
         (finalize \<lparr>entry_record = rec, entry_resolve = h2, entry_timer = h2\<rparr>
            (record_id rec) d by now s')) \<and>
    settled (snd (resolve (record_id rec) d by now s')) = settled s' @ [(h2, Some d)] \<and>
    map_of (timers s') (entry_timer e1) = map_of (timers s) (entry_timer e1) \<and>
    map_of (timers s') (entry_timer e1) \<noteq> None \<and>
    settled (fire_timer (entry_timer e1) s') = settled s' @ [(entry_resolve e1, None)] \<and>
    times_resumed (entry_resolve e1) (run_store ops' s') = 0"
proof -
  let ?e2 = "\<lparr>entry_record = rec, entry_resolve = h2, entry_timer = h2\<rparr>"
  from reach have inv: "store_inv s" by (simp add: store_inv_reachable)
  from inv s' have inv': "store_inv s'" by (simp add: store_inv_waitForDecision)
  from h2 have h2': "h2 = next_handle s" by (simp add: waitForDecision_fields)
  from store_invD(4) [OF inv e1] obtain tm1 where
    tm1: "map_of (timers s) (entry_timer e1) = Some tm1" "timer_record_id tm1 = record_id rec"
    and er: "entry_resolve e1 = entry_timer e1"
    by blast
  from store_invD(3) [OF inv tm1(1)] have lt: "entry_timer e1 < next_handle s"
    and tr: "timer_resolve tm1 = entry_timer e1"
    by simp_all
  from e1 have mem: "record_id rec \<in> set (map fst (pending s))"
    by (metis keys_map_of option.distinct(1) set_map)
  have keys: "map fst (pending s') = map fst (pending s)"
    using mem by (simp add: s' waitForDecision_def Let_def update_keys)
  then have len: "length (pending s') = length (pending s)"
    by (metis length_map)
  have new: "map_of (pending s') (record_id rec) = Some ?e2"
    by (simp add: s' h2' waitForDecision_fields)
  have diff: "h2 \<noteq> entry_resolve e1"
    using lt er h2' by simp
  have res: "resolve (record_id rec) d by now s' =
      (True, call_resolve h2 (Some d) (finalize ?e2 (record_id rec) d by now s'))"
    using resolve_Some [OF new] by simp
  then have log: "settled (snd (resolve (record_id rec) d by now s')) = settled s' @ [(h2, Some d)]"
    by (simp add: call_resolve_fields finalize_fields)
  have same: "map_of (timers s') (entry_timer e1) = map_of (timers s) (entry_timer e1)"
    using lt by (simp add: s' waitForDecision_fields)
  with tm1 have armed: "map_of (timers s') (entry_timer e1) = Some tm1" by simp
  then have ne: "map_of (timers s') (entry_timer e1) \<noteq> None" by simp
  have fire: "settled (fire_timer (entry_timer e1) s') = settled s' @ [(entry_resolve e1, None)]"
    using fire_timer_Some [OF armed] tr er by (simp add: call_resolve_fields expire_fields)
  have orph: "orphaned (entry_timer e1) tm1 s'"
    unfolding orphaned_def
  proof (intro conjI allI impI)
    show "store_inv s'" by (rule inv')
    show "map_of (timers s') (entry_timer e1) = Some tm1" by (rule armed)
  next
    fix k e assume a: "map_of (pending s') k = Some e"
    show "entry_timer e \<noteq> entry_timer e1"
    proof (cases "k = record_id rec")
      case True
      with a new have "e = ?e2" by simp
      with lt h2' show ?thesis by simp
    next
      case False
      with a have old: "map_of (pending s) k = Some e"
        by (simp add: s' waitForDecision_fields)
      from store_invD(4) [OF inv old] obtain tm where
        "map_of (timers s) (entry_timer e) = Some tm" "timer_record_id tm = k"
        by blast
      with False tm1 show ?thesis by auto
    qed
  qed
  from orphaned_run [OF orph others] have never: "times_resumed (entry_resolve e1) (run_store ops' s') = 0"
    using er by (simp add: orphaned_not_resumed)
  from keys len new diff res log same ne fire never show ?thesis by (intro conjI)
qed

theorem waitForDecision_replaces_witness:
  "map fst (pending (snd (waitForDecision ex_record_a2 30 ex_store_a))) = [''a''] \<and>
   map_of (pending (snd (waitForDecision ex_record_a2 30 ex_store_a))) ''a'' =
     Some \<lparr>entry_record = ex_record_a2, entry_resolve = 1, entry_timer = 1\<rparr> \<and>
   settled (snd (resolve ''a'' AllowOnce None 6 (snd (waitForDecision ex_record_a2 30 ex_store_a)))) =
     [(1, Some AllowOnce)] \<and>
   settled (fire_timer 0 (snd (waitForDecision ex_record_a2 30 ex_store_a))) = [(0, None)] \<and>
   times_resumed 0
     (run_store [Resolve ''a'' AllowOnce None 6, Fire 1]
        (snd (waitForDecision ex_record_a2 30 ex_store_a))) = 0"
proof -
  have r: "ex_store_a = run_store [Wait ex_record_a 10] empty_store"
    by (simp add: run_store_def ex_store_a_def)
  have e1: "map_of (pending ex_store_a) (record_id ex_record_a2) =
      Some \<lparr>entry_record = ex_record_a, entry_resolve = 0, entry_timer = 0\<rparr>"
    by (simp add: ex_store_a_eq ex_record_a2_eq)
  have h2: "(1::nat) = fst (waitForDecision ex_record_a2 30 ex_store_a)"
    by (simp add: waitForDecision_fields ex_store_a_eq)
  have o: "list_all (not_fire (entry_timer \<lparr>entry_record = ex_record_a, entry_resolve = 0,
      entry_timer = 0\<rparr>)) [Resolve ''a'' AllowOnce None 6, Fire 1]"
    by simp
  note th = waitForDecision_replaces [OF r e1 h2 refl o, of AllowOnce None 6]
  have st: "settled (snd (waitForDecision ex_record_a2 30 ex_store_a)) = []"
    "map fst (pending ex_store_a) = [''a'']"
    by (simp_all add: waitForDecision_fields ex_store_a_eq)
  have rid: "record_id ex_record_a2 = ''a''"
    by (simp add: ex_record_a2_eq)
  note c1 = th [THEN conjunct1]
  note c3 = th [THEN conjunct2, THEN conjunct2, THEN conjunct1]
  note r5 = th [THEN conjunct2, THEN conjunct2, THEN conjunct2, THEN conjunct2, THEN conjunct2]
  note c6 = r5 [THEN conjunct1]
  note c9 = r5 [THEN conjunct2, THEN conjunct2, THEN conjunct2, THEN conjunct1]
  note c10 = r5 [THEN conjunct2, THEN conjunct2, THEN conjunct2, THEN conjunct2]
  have 1: "map fst (pending (snd (waitForDecision ex_record_a2 30 ex_store_a))) = [''a'']"
    using c1 st by simp
  have 3: "map_of (pending (snd (waitForDecision ex_record_a2 30 ex_store_a))) ''a'' =
     Some \<lparr>entry_record = ex_record_a2, entry_resolve = 1, entry_timer = 1\<rparr>"
    using c3 by (simp add: rid)
  have 6: "settled (snd (resolve ''a'' AllowOnce None 6
        (snd (waitForDecision ex_record_a2 30 ex_store_a)))) = [(1, Some AllowOnce)]"
    using c6 st by (simp add: rid)
  have 9: "settled (fire_timer 0 (snd (waitForDecision ex_record_a2 30 ex_store_a))) = [(0, None)]"
    using c9 st by simp
  have 10: "times_resumed 0
     (run_store [Resolve ''a'' AllowOnce None 6, Fire 1]
        (snd (waitForDecision ex_record_a2 30 ex_store_a))) = 0"
    using c10 by simp
  from 1 3 6 9 10 show ?thesis by (intro conjI)
qed

section \<open>Properties of the handlers\<close>

lemma respond_fields:
  "store (respond req r g) = store g"
  "trace (respond req r g) = trace g @ [Respond req r]"
  "awaiting (respond req r g) = awaiting g"
  by (simp_all add: respond_def)

lemma broadcast_fields:
  "store (broadcast b g) = store g"
  "trace (broadcast b g) = trace g @ [Broadcast b]"
  "awaiting (broadcast b g) = awaiting g"
  by (simp_all add: broadcast_def)

lemma broadcasts_append: "broadcasts (xs @ ys) = broadcasts xs @ broadcasts ys"
  by (induction xs rule: broadcasts.induct) simp_all

text \<open>
  C2. Spec-modelled handler. A \<open>request\<close> call whose \<open>params.id\<close> is the id of a
  pending record responds with the failure "approval id already pending" and does
  nothing else: the store (pending map with its records, armed timers, handles) is the
  same, the broadcasts are the same, no call is left suspended.
\<close>

theorem request_duplicate_id:
  assumes "p_id p = Some i" and "getSnapshot i (store g) = Some rec"
  shows "handle_request req now uuid lsn p g =
           respond req (Failure ''approval id already pending'') g \<and>
         store (handle_request req now uuid lsn p g) = store g \<and>
         getSnapshot i (store (handle_request req now uuid lsn p g)) = Some rec \<and>
         trace (handle_request req now uuid lsn p g) =
           trace g @ [Respond req (Failure ''approval id already pending'')] \<and>
         broadcasts (trace (handle_request req now uuid lsn p g)) = broadcasts (trace g) \<and>
         awaiting (handle_request req now uuid lsn p g) = awaiting g"
proof -
  from assms have "handle_request req now uuid lsn p g =
      respond req (Failure ''approval id already pending'') g"
    by (simp add: handle_request_def duplicate_id_def)
  with assms(2) show ?thesis
    by (simp add: respond_fields broadcasts_append)
qed

lemma trim_dup: "trim ''dup-1'' = ''dup-1''"
  by (simp add: trim_def js_whitespace_def)

lemma ex_gateway_dup_eq:
  "ex_gateway_dup =
     \<lparr>store = snd (waitForDecision
                 (fst (create ''uuid-1'' 0 ex_request 10 (Some ''dup-1'') empty_store)) 10
                 empty_store),
      trace = [Broadcast (Requested (pending_item 0
                 (fst (create ''uuid-1'' 0 ex_request 10 (Some ''dup-1'') empty_store))))],
      awaiting = [(0, ''req-1'', ''dup-1'')]\<rparr>"
  by (simp add: ex_gateway_dup_def gateway_step_def handle_request_def duplicate_id_def
      ex_params_dup_def empty_gateway_def getSnapshot_def empty_store_def create_def trim_dup
      waitForDecision_def broadcast_def run_microtasks_def)

theorem request_duplicate_id_witness:
  "handle_request ''req-2'' 1 ''uuid-2'' Passive
     \<lparr>p_id = Some ''dup-1'', p_request = ex_request\<lparr>command := ''echo again''\<rparr>,
      p_timeoutMs = 10\<rparr> ex_gateway_dup =
   respond ''req-2'' (Failure ''approval id already pending'') ex_gateway_dup \<and>
   broadcasts (trace (handle_request ''req-2'' 1 ''uuid-2'' Passive
     \<lparr>p_id = Some ''dup-1'', p_request = ex_request\<lparr>command := ''echo again''\<rparr>,
      p_timeoutMs = 10\<rparr> ex_gateway_dup)) = broadcasts (trace ex_gateway_dup)"
proof -
  let ?p = "\<lparr>p_id = Some ''dup-1'', p_request = ex_request\<lparr>command := ''echo again''\<rparr>,
      p_timeoutMs = 10\<rparr>"
  have a: "p_id ?p = Some ''dup-1''" by simp
  have b: "getSnapshot ''dup-1'' (store ex_gateway_dup) =
      Some (fst (create ''uuid-1'' 0 ex_request 10 (Some ''dup-1'') empty_store))"
    by (simp add: ex_gateway_dup_eq getSnapshot_def waitForDecision_fields create_def trim_dup)
  note th = request_duplicate_id [OF a b, of "''req-2''" 1 "''uuid-2''" Passive]
  from th [THEN conjunct1]
    th [THEN conjunct2, THEN conjunct2, THEN conjunct2, THEN conjunct2, THEN conjunct1]
  show ?thesis by (intro conjI)
qed

text \<open>The check is on the id the record would get: the pending id with blanks around
  it is a duplicate too, and the pending entry is not replaced.\<close>

lemma request_padded_duplicate:
  "handle_request ''req-2'' 1 ''uuid-2'' Passive
     \<lparr>p_id = Some '' dup-1 '', p_request = ex_request, p_timeoutMs = 10\<rparr> ex_gateway_dup =
   respond ''req-2'' (Failure ''approval id already pending'') ex_gateway_dup"
proof -
  have t: "trim '' dup-1 '' = ''dup-1''"
    by (simp add: trim_def js_whitespace_def)
  have b: "getSnapshot ''dup-1'' (store ex_gateway_dup) \<noteq> None"
    by (simp add: ex_gateway_dup_eq getSnapshot_def waitForDecision_fields create_def trim_dup)
  from b show ?thesis
    by (simp add: handle_request_def duplicate_id_def t)
qed

text \<open>
  C9. Spec-modelled handler. A \<open>pending\<close> call whose params object has any key
  responds with a failure whose message contains "invalid exec.approval.pending
  params" (and so names the method) and changes nothing else; with the empty params
  object it responds with success carrying \<open>nowMs\<close> and \<open>listPending(nowMs)\<close>.
\<close>

theorem pending_params:
  "(keys \<noteq> [] \<longrightarrow>
      handle_pending lc req now detail keys g =
        respond req (Failure (''invalid exec.approval.pending params: '' @ detail)) g \<and>
      sublist ''invalid exec.approval.pending params''
        (''invalid exec.approval.pending params: '' @ detail) \<and>
      sublist ''exec.approval.pending'' (''invalid exec.approval.pending params: '' @ detail) \<and>
      store (handle_pending lc req now detail keys g) = store g \<and>
      awaiting (handle_pending lc req now detail keys g) = awaiting g \<and>
      broadcasts (trace (handle_pending lc req now detail keys g)) = broadcasts (trace g)) \<and>
   handle_pending lc req now detail [] g =
     respond req (Pending_ok now (listPending lc now (Finite now) (store g))) g \<and>
   store (handle_pending lc req now detail [] g) = store g"
proof -
  let ?msg = "''invalid exec.approval.pending params: '' @ detail"
  have m1: "?msg = ''invalid exec.approval.pending params'' @ ('': '' @ detail)" by simp
  have m2: "?msg = ''invalid '' @ ''exec.approval.pending'' @ ('' params: '' @ detail)" by simp
  have s1: "sublist ''invalid exec.approval.pending params'' ?msg"
    unfolding m1 by (rule sublist_append_rightI)
  have s2: "sublist ''exec.approval.pending'' ?msg"
    unfolding m2 by (rule sublist_appendI)
  have bad: "handle_pending lc req now detail keys g = respond req (Failure ?msg) g"
    if "keys \<noteq> []"
    using that by (simp add: handle_pending_def)
  have good: "handle_pending lc req now detail [] g =
      respond req (Pending_ok now (listPending lc now (Finite now) (store g))) g"
    by (simp add: handle_pending_def)
  from s1 s2 bad good show ?thesis
    by (simp add: respond_fields broadcasts_append)
qed

theorem pending_params_witness:
  "handle_pending localeCompare ''req-pending'' 3 ''unexpected property extra'' [''extra'']
     ex_gateway_dup =
   respond ''req-pending''
     (Failure ''invalid exec.approval.pending params: unexpected property extra'')
     ex_gateway_dup \<and>
   handle_pending localeCompare ''req-pending'' 3 ''unexpected property extra'' []
     ex_gateway_dup =
   respond ''req-pending''
     (Pending_ok 3 (listPending localeCompare 3 (Finite 3) (store ex_gateway_dup)))
     ex_gateway_dup"
proof -
  note th = pending_params [of "[''extra'']" localeCompare "''req-pending''" 3
      "''unexpected property extra''" ex_gateway_dup]
  have ne: "[''extra''] \<noteq> []" by simp
  from th [THEN conjunct1, rule_format, OF ne, THEN conjunct1]
    th [THEN conjunct2, THEN conjunct1]
  show ?thesis by simp
qed

section \<open>The invariant of the gateway\<close>

subsection \<open>Microtasks\<close>

lemma resume_one_None: "map_of (awaiting g) (fst c) = None \<Longrightarrow> resume_one c g = g"
  by (simp add: resume_one_def)

lemma resume_one_Some:
  "map_of (awaiting g) p = Some (req, i) \<Longrightarrow>
   resume_one (p, v) g =
     g\<lparr>trace := trace g @ [Respond req (Request_ok i v)],
       awaiting := AList.delete p (awaiting g)\<rparr>"
  by (simp add: resume_one_def respond_def)

lemma foldl_resume_skip:
  "(\<And>c. c \<in> set xs \<Longrightarrow> map_of (awaiting g) (fst c) = None) \<Longrightarrow>
   foldl (\<lambda>g' c. resume_one c g') g xs = g"
  by (induction xs) (simp_all add: resume_one_None)

lemma run_microtasks_idle:
  assumes "\<And>p v. (p, v) \<in> set (settled (store g)) \<Longrightarrow> map_of (awaiting g) p = None"
  shows "run_microtasks g = g"
  unfolding run_microtasks_def
  by (rule foldl_resume_skip) (use assms in auto)

lemma run_microtasks_last:
  assumes "settled (store g) = xs @ [c]"
    and "\<And>p v. (p, v) \<in> set xs \<Longrightarrow> map_of (awaiting g) p = None"
  shows "run_microtasks g = resume_one c g"
proof -
  have "foldl (\<lambda>g' c. resume_one c g') g xs = g"
    by (rule foldl_resume_skip) (use assms(2) in auto)
  then show ?thesis
    by (simp add: run_microtasks_def assms(1))
qed

subsection \<open>Traces\<close>

lemma requested_ids_append: "requested_ids (xs @ ys) = requested_ids xs @ requested_ids ys"
  by (induction xs rule: requested_ids.induct) simp_all

lemma requested_first_from_append:
  "requested_first_from seen (xs @ ys) \<longleftrightarrow>
     requested_first_from seen xs \<and> requested_first_from (seen \<union> set (requested_ids xs)) ys"
  by (induction seen xs rule: requested_first_from.induct) auto

lemma requested_first_from_split:
  "requested_first_from seen (pre @ Broadcast (Resolved i d rby) # post) \<Longrightarrow>
   i \<in> seen \<union> set (requested_ids pre)"
  by (simp add: requested_first_from_append)

lemma tr_inv_respond: "tr_inv st tr \<Longrightarrow> tr_inv st (tr @ [Respond req r])"
  by (simp add: tr_inv_def requested_ids_append requested_first_def requested_first_from_append)

lemma tr_inv_resolved:
  "tr_inv st tr \<Longrightarrow> i \<in> fst ` set (pending st) \<Longrightarrow>
   tr_inv st (tr @ [Broadcast (Resolved i d rby)])"
  by (auto simp: tr_inv_def requested_ids_append requested_first_def requested_first_from_append)

lemma tr_inv_shrink:
  "tr_inv st tr \<Longrightarrow> fst ` set (pending st') \<subseteq> fst ` set (pending st) \<Longrightarrow> tr_inv st' tr"
  by (auto simp: tr_inv_def)

lemma tr_inv_requested:
  assumes "tr_inv st tr" and "item_id it = record_id rec"
  shows "tr_inv (snd (waitForDecision rec timeoutMs st)) (tr @ [Broadcast (Requested it)])"
proof -
  have "fst ` set (pending (snd (waitForDecision rec timeoutMs st))) =
      {record_id rec} \<union> fst ` set (pending st)"
    by (simp add: waitForDecision_def Let_def dom_update)
  with assms show ?thesis
    by (auto simp: tr_inv_def requested_ids_append requested_first_def
        requested_first_from_append)
qed

lemma keys_delete_subset: "fst ` set (AList.delete k al) \<subseteq> fst ` set al"
  by (auto simp: AList.delete_eq)

lemma pending_resolve_subset:
  "fst ` set (pending (snd (resolve i d rby now st))) \<subseteq> fst ` set (pending st)"
  by (cases "map_of (pending st) i")
    (simp_all add: resolve_def call_resolve_def finalize_def Let_def keys_delete_subset)

lemma pending_fire_subset:
  "fst ` set (pending (fire_timer t st)) \<subseteq> fst ` set (pending st)"
  by (cases "map_of (timers st) t")
    (simp_all add: fire_timer_def call_resolve_def expire_def Let_def keys_delete_subset)

subsection \<open>Store and suspended calls\<close>

lemma sa_invD:
  assumes "sa_inv st aw"
  shows "store_inv st"
    and "\<And>k e. map_of (pending st) k = Some e \<Longrightarrow>
           \<exists>req. map_of aw (entry_resolve e) = Some (req, k)"
    and "\<And>p v. (p, v) \<in> set (settled st) \<Longrightarrow> map_of aw p = None"
    and "\<And>p x. map_of aw p = Some x \<Longrightarrow> p < next_handle st"
  using assms unfolding sa_inv_def by blast+

lemma sa_invI:
  assumes "store_inv st"
    and "\<And>k e. map_of (pending st) k = Some e \<Longrightarrow>
           \<exists>req. map_of aw (entry_resolve e) = Some (req, k)"
    and "\<And>p v. (p, v) \<in> set (settled st) \<Longrightarrow> map_of aw p = None"
    and "\<And>p x. map_of aw p = Some x \<Longrightarrow> p < next_handle st"
  shows "sa_inv st aw"
  using assms unfolding sa_inv_def by blast

lemma entry_not_timer:
  assumes inv: "store_inv st" and tm: "map_of (timers st) t = Some tm"
    and e: "map_of (pending st) k = Some e" and ne: "k \<noteq> timer_record_id tm"
  shows "entry_resolve e \<noteq> t"
proof -
  from store_invD(4) [OF inv e] obtain tm' where
    "map_of (timers st) (entry_timer e) = Some tm'" "timer_record_id tm' = k"
    and "entry_resolve e = entry_timer e"
    by blast
  with tm ne show ?thesis by auto
qed

lemma sa_inv_register:
  assumes A: "sa_inv st aw"
  shows "sa_inv (snd (waitForDecision rec timeoutMs st))
           (AList.update (next_handle st) (req, record_id rec) aw)"
proof (rule sa_invI)
  let ?h = "next_handle st"
  let ?st = "snd (waitForDecision rec timeoutMs st)"
  let ?aw = "AList.update ?h (req, record_id rec) aw"
  note D = sa_invD [OF A]
  have aw: "map_of ?aw = (map_of aw)(?h \<mapsto> (req, record_id rec))"
    by (simp add: update_conv')
  show "store_inv ?st" by (rule store_inv_waitForDecision [OF D(1)])
  show "\<exists>req'. map_of ?aw (entry_resolve e) = Some (req', k)"
    if "map_of (pending ?st) k = Some e" for k e
  proof (cases "k = record_id rec")
    case True
    with that show ?thesis by (auto simp: waitForDecision_fields aw)
  next
    case False
    with that have old: "map_of (pending st) k = Some e"
      by (simp add: waitForDecision_fields)
    from D(2) [OF old] obtain r where r: "map_of aw (entry_resolve e) = Some (r, k)" ..
    from D(4) [OF r] have "entry_resolve e \<noteq> ?h" by simp
    with r show ?thesis by (simp add: aw)
  qed
  show "map_of ?aw p = None" if "(p, v) \<in> set (settled ?st)" for p v
  proof -
    from that have m: "(p, v) \<in> set (settled st)" by (simp add: waitForDecision_fields)
    from store_invD(5) [OF D(1) m] have "p \<noteq> ?h" by simp
    with D(3) [OF m] show ?thesis by (simp add: aw)
  qed
  show "p < next_handle ?st" if "map_of ?aw p = Some x" for p x
  proof (cases "p = ?h")
    case True
    then show ?thesis by (simp add: waitForDecision_fields)
  next
    case False
    with that have "map_of aw p = Some x" by (simp add: aw)
    from D(4) [OF this] show ?thesis by (simp add: waitForDecision_fields)
  qed
qed

lemma sa_inv_resolve:
  assumes A: "sa_inv st aw" and e: "map_of (pending st) i = Some e"
  shows "sa_inv (snd (resolve i d rby now st)) (AList.delete (entry_resolve e) aw)"
proof (rule sa_invI)
  let ?w = "entry_resolve e"
  let ?st = "snd (resolve i d rby now st)"
  let ?aw = "AList.delete ?w aw"
  note D = sa_invD [OF A]
  have aw: "map_of ?aw = (map_of aw)(?w := None)"
    by (simp add: delete_conv')
  have st: "?st = call_resolve ?w (Some d) (finalize e i d rby now st)"
    by (simp add: resolve_Some [OF e])
  from store_invD(4) [OF D(1) e] obtain tm where
    tm: "map_of (timers st) ?w = Some tm" "timer_record_id tm = i"
    by auto
  show "store_inv ?st" by (rule store_inv_resolve [OF D(1)])
  show "\<exists>req'. map_of ?aw (entry_resolve e') = Some (req', k)"
    if "map_of (pending ?st) k = Some e'" for k e'
  proof -
    from that have k: "k \<noteq> i" and old: "map_of (pending st) k = Some e'"
      by (simp_all add: st call_resolve_fields finalize_fields split: if_splits)
    from entry_not_timer [OF D(1) tm(1) old] k tm(2) have "entry_resolve e' \<noteq> ?w" by simp
    with D(2) [OF old] show ?thesis by (simp add: aw)
  qed
  show "map_of ?aw p = None" if "(p, v) \<in> set (settled ?st)" for p v
  proof -
    from that consider "(p, v) \<in> set (settled st)" | "p = ?w"
      by (auto simp: st call_resolve_fields finalize_fields)
    then show ?thesis
    proof cases
      case 1
      from D(3) [OF 1] show ?thesis by (simp add: aw)
    next
      case 2
      then show ?thesis by (simp add: aw)
    qed
  qed
  show "p < next_handle ?st" if "map_of ?aw p = Some x" for p x
  proof -
    from that have "map_of aw p = Some x" by (simp add: aw split: if_splits)
    from D(4) [OF this] show ?thesis by (simp add: st call_resolve_fields finalize_fields)
  qed
qed

lemma sa_inv_fire:
  assumes A: "sa_inv st aw" and tm: "map_of (timers st) t = Some tm"
  shows "sa_inv (fire_timer t st) (AList.delete t aw)"
proof (rule sa_invI)
  let ?st = "fire_timer t st"
  let ?aw = "AList.delete t aw"
  note D = sa_invD [OF A]
  have aw: "map_of ?aw = (map_of aw)(t := None)"
    by (simp add: delete_conv')
  from store_invD(3) [OF D(1) tm] have tr: "timer_resolve tm = t" by simp
  have st: "?st = call_resolve t None (expire t tm st)"
    using fire_timer_Some [OF tm] tr by simp
  show "store_inv ?st" by (rule store_inv_fire_timer [OF D(1)])
  show "\<exists>req'. map_of ?aw (entry_resolve e') = Some (req', k)"
    if "map_of (pending ?st) k = Some e'" for k e'
  proof -
    from that have k: "k \<noteq> timer_record_id tm" and old: "map_of (pending st) k = Some e'"
      by (simp_all add: st call_resolve_fields expire_fields split: if_splits)
    from entry_not_timer [OF D(1) tm old k] have "entry_resolve e' \<noteq> t" .
    with D(2) [OF old] show ?thesis by (simp add: aw)
  qed
  show "map_of ?aw p = None" if "(p, v) \<in> set (settled ?st)" for p v
  proof -
    from that consider "(p, v) \<in> set (settled st)" | "p = t"
      by (auto simp: st call_resolve_fields expire_fields)
    then show ?thesis
    proof cases
      case 1
      from D(3) [OF 1] show ?thesis by (simp add: aw)
    next
      case 2
      then show ?thesis by (simp add: aw)
    qed
  qed
  show "p < next_handle ?st" if "map_of ?aw p = Some x" for p x
  proof -
    from that have "map_of aw p = Some x" by (simp add: aw split: if_splits)
    from D(4) [OF this] show ?thesis by (simp add: st call_resolve_fields expire_fields)
  qed
qed

subsection \<open>What each task does\<close>

lemma gw_invD:
  assumes "gw_inv g"
  shows "sa_inv (store g) (awaiting g)" and "tr_inv (store g) (trace g)"
  using assms by (simp_all add: gw_inv_def)

lemma gw_inv_idle: "gw_inv g \<Longrightarrow> run_microtasks g = g"
  by (rule run_microtasks_idle) (auto dest: gw_invD(1) sa_invD(3))

lemma create_snd: "snd (create uuid now r timeoutMs ido st) = st"
  by (simp add: create_def Let_def)

lemma create_id: "record_id (fst (create uuid now r timeoutMs ido st)) =
    (case ido of None \<Rightarrow> uuid | Some i \<Rightarrow> if trim i \<noteq> [] then trim i else uuid)"
proof -
  have "trim [] = []" by (simp add: trim_def)
  then show ?thesis by (cases ido) (auto simp: create_def Let_def)
qed

lemma handle_request_dup:
  assumes "duplicate_id p (store g)"
  shows "handle_request req now uuid lsn p g =
           respond req (Failure ''approval id already pending'') g"
  using assms by (simp add: handle_request_def)

lemma handle_request_fresh:
  assumes "\<not> duplicate_id p (store g)"
  shows "handle_request req now uuid lsn p g =
     (let rec = fst (create uuid now (p_request p) (p_timeoutMs p) (p_id p) (store g));
          g1 = broadcast (Requested (pending_item now rec)) g;
          g2 = (case lsn of
                  Passive \<Rightarrow> g1
                | Resolver req2 d rby \<Rightarrow> handle_resolve req2 now (record_id rec) d rby g1)
      in g2\<lparr>store := snd (waitForDecision rec (p_timeoutMs p) (store g2)),
            awaiting := AList.update (next_handle (store g2)) (req, record_id rec)
                          (awaiting g2)\<rparr>)"
proof -
  have g: "g\<lparr>store := store g\<rparr> = g" by simp
  show ?thesis
    unfolding handle_request_def Let_def
    by (simp only: assms if_False case_prod_unfold create_snd waitForDecision_fields g)
qed

lemma tr_inv_requested_early:
  "tr_inv st tr \<Longrightarrow> tr_inv st (tr @ [Broadcast (Requested it)])"
  by (auto simp: tr_inv_def requested_ids_append requested_first_def
      requested_first_from_append)

lemma tr_inv_register:
  assumes "tr_inv st tr" and "record_id rec \<in> set (requested_ids tr)"
  shows "tr_inv (snd (waitForDecision rec timeoutMs st)) tr"
proof -
  have "fst ` set (pending (snd (waitForDecision rec timeoutMs st))) =
      {record_id rec} \<union> fst ` set (pending st)"
    by (simp add: waitForDecision_def Let_def dom_update)
  with assms show ?thesis
    by (auto simp: tr_inv_def)
qed

lemma handle_resolve_unknown:
  "map_of (pending (store g)) i = None \<Longrightarrow>
   handle_resolve req now i d rby g = respond req (Failure ''unknown approval id'') g"
  by (simp add: handle_resolve_def resolve_None)

lemma handle_resolve_pending:
  "map_of (pending (store g)) i = Some e \<Longrightarrow>
   handle_resolve req now i d rby g =
     g\<lparr>store := snd (resolve i d rby now (store g)),
       trace := trace g @ [Broadcast (Resolved i d rby), Respond req Resolve_ok]\<rparr>"
  by (simp add: handle_resolve_def resolve_Some respond_def broadcast_def)

lemma step_respond_only:
  assumes inv: "gw_inv g"
  shows "run_microtasks (respond req r g) = respond req r g"
    and "gw_inv (respond req r g)"
proof -
  from inv show i: "gw_inv (respond req r g)"
    by (simp add: gw_inv_def respond_fields tr_inv_respond)
  then show "run_microtasks (respond req r g) = respond req r g"
    by (rule gw_inv_idle)
qed

lemma step_request_passive:
  assumes inv: "gw_inv g"
    and fresh: "\<not> duplicate_id p (store g)"
    and rec: "rec = fst (create uuid now (p_request p) (p_timeoutMs p) (p_id p) (store g))"
  shows "gateway_step lc (Request req now uuid Passive p) g =
     g\<lparr>store := snd (waitForDecision rec (p_timeoutMs p) (store g)),
       trace := trace g @ [Broadcast (Requested (pending_item now rec))],
       awaiting := AList.update (next_handle (store g)) (req, record_id rec) (awaiting g)\<rparr>"
    (is "_ = ?g'")
    and "gw_inv (gateway_step lc (Request req now uuid Passive p) g)"
proof -
  have body: "handle_request req now uuid Passive p g = ?g'"
    by (simp add: handle_request_fresh [OF fresh] Let_def rec broadcast_def)
  have sa: "sa_inv (store ?g') (awaiting ?g')"
    using sa_inv_register [OF gw_invD(1) [OF inv]] by simp
  have tr: "tr_inv (store ?g') (trace ?g')"
    using tr_inv_requested [OF gw_invD(2) [OF inv] item_id_pending_item] by simp
  from sa tr have i: "gw_inv ?g'" by (simp add: gw_inv_def)
  then have "run_microtasks ?g' = ?g'" by (rule gw_inv_idle)
  with body show eq: "gateway_step lc (Request req now uuid Passive p) g = ?g'"
    by (simp add: gateway_step_def)
  from i eq show "gw_inv (gateway_step lc (Request req now uuid Passive p) g)" by simp
qed

lemma fresh_handle_not_awaited:
  assumes "sa_inv st aw"
  shows "map_of aw (next_handle st) = None"
proof (cases "map_of aw (next_handle st)")
  case (Some x)
  from sa_invD(4) [OF assms Some] show ?thesis by simp
qed simp

lemma delete_update_fresh:
  "map_of al k = None \<Longrightarrow> AList.delete k (AList.update k v al) = al"
  by (simp add: delete_update_same map_of_eq_None_iff)

lemma step_resolve_pending:
  assumes inv: "gw_inv g" and e: "map_of (pending (store g)) i = Some e"
    and aw: "map_of (awaiting g) (entry_resolve e) = Some (req0, i)"
  shows "gateway_step lc (ResolveCall req now i d rby) g =
     g\<lparr>store := snd (resolve i d rby now (store g)),
       trace := trace g @ [Broadcast (Resolved i d rby), Respond req Resolve_ok,
                           Respond req0 (Request_ok i (Some d))],
       awaiting := AList.delete (entry_resolve e) (awaiting g)\<rparr>"
    (is "_ = ?g'")
    and "gw_inv (gateway_step lc (ResolveCall req now i d rby) g)"
proof -
  let ?b = "g\<lparr>store := snd (resolve i d rby now (store g)),
       trace := trace g @ [Broadcast (Resolved i d rby), Respond req Resolve_ok]\<rparr>"
  note A = gw_invD(1) [OF inv]
  have body: "handle_resolve req now i d rby g = ?b"
    by (rule handle_resolve_pending [OF e])
  have log: "settled (store ?b) = settled (store g) @ [(entry_resolve e, Some d)]"
    by (simp add: resolve_Some [OF e] call_resolve_fields finalize_fields)
  have old: "map_of (awaiting ?b) p = None" if "(p, v) \<in> set (settled (store g))" for p v
    using sa_invD(3) [OF A that] by simp
  have "run_microtasks ?b = resume_one (entry_resolve e, Some d) ?b"
    by (rule run_microtasks_last [OF log old])
  also have "\<dots> = ?g'"
    using aw by (simp add: resume_one_def respond_def)
  finally show eq: "gateway_step lc (ResolveCall req now i d rby) g = ?g'"
    by (simp add: gateway_step_def body)
  have sa: "sa_inv (store ?g') (awaiting ?g')"
    using sa_inv_resolve [OF A e] by simp
  from e have mem: "i \<in> fst ` set (pending (store g))"
    by (metis keys_map_of option.distinct(1))
  have "tr_inv (store g) (trace ?g')"
    using tr_inv_respond [OF tr_inv_respond [OF tr_inv_resolved [OF gw_invD(2) [OF inv] mem]]]
    by simp
  then have tr: "tr_inv (store ?g') (trace ?g')"
    by (rule tr_inv_shrink) (simp add: pending_resolve_subset)
  from sa tr eq show "gw_inv (gateway_step lc (ResolveCall req now i d rby) g)"
    by (simp add: gw_inv_def)
qed

lemma step_resolve_unknown:
  assumes inv: "gw_inv g" and e: "map_of (pending (store g)) i = None"
  shows "gateway_step lc (ResolveCall req now i d rby) g =
           respond req (Failure ''unknown approval id'') g"
    and "gw_inv (gateway_step lc (ResolveCall req now i d rby) g)"
  using step_respond_only [OF inv] handle_resolve_unknown [OF e]
  by (simp_all add: gateway_step_def)

lemma step_request_dup:
  assumes inv: "gw_inv g" and "duplicate_id p (store g)"
  shows "gateway_step lc (Request req now uuid lsn p) g =
           respond req (Failure ''approval id already pending'') g"
    and "gw_inv (gateway_step lc (Request req now uuid lsn p) g)"
  using step_respond_only [OF inv] handle_request_dup [OF assms(2)]
  by (simp_all add: gateway_step_def)

lemma step_pending:
  assumes inv: "gw_inv g"
  shows "gw_inv (gateway_step lc (PendingCall req now detail keys) g)"
  using step_respond_only [OF inv]
  by (simp add: gateway_step_def handle_pending_def)

lemma step_timer_idle:
  assumes inv: "gw_inv g" and "map_of (timers (store g)) t = None"
  shows "gateway_step lc (TimerFires t) g = g"
  using assms by (simp add: gateway_step_def fire_timer_None gw_inv_idle)

lemma step_timer_armed:
  assumes inv: "gw_inv g" and tm: "map_of (timers (store g)) t = Some tm"
  shows "gateway_step lc (TimerFires t) g =
     (case map_of (awaiting g) t of
        None \<Rightarrow> g\<lparr>store := fire_timer t (store g)\<rparr>
      | Some (req0, k) \<Rightarrow>
          g\<lparr>store := fire_timer t (store g),
            trace := trace g @ [Respond req0 (Request_ok k None)],
            awaiting := AList.delete t (awaiting g)\<rparr>)"
    and "gw_inv (gateway_step lc (TimerFires t) g)"
proof -
  let ?b = "g\<lparr>store := fire_timer t (store g)\<rparr>"
  note A = gw_invD(1) [OF inv]
  from store_invD(3) [OF sa_invD(1) [OF A] tm] have tr: "timer_resolve tm = t" by simp
  have log: "settled (store ?b) = settled (store g) @ [(t, None)]"
    using fire_timer_Some [OF tm] tr by (simp add: call_resolve_fields expire_fields)
  have old: "map_of (awaiting ?b) p = None" if "(p, v) \<in> set (settled (store g))" for p v
    using sa_invD(3) [OF A that] by simp
  have run: "run_microtasks ?b = resume_one (t, None) ?b"
    by (rule run_microtasks_last [OF log old])
  show eq: "gateway_step lc (TimerFires t) g =
     (case map_of (awaiting g) t of
        None \<Rightarrow> g\<lparr>store := fire_timer t (store g)\<rparr>
      | Some (req0, k) \<Rightarrow>
          g\<lparr>store := fire_timer t (store g),
            trace := trace g @ [Respond req0 (Request_ok k None)],
            awaiting := AList.delete t (awaiting g)\<rparr>)"
    by (simp add: gateway_step_def run resume_one_def respond_def split: option.splits)
  have sa: "sa_inv (fire_timer t (store g)) (AList.delete t (awaiting g))"
    by (rule sa_inv_fire [OF A tm])
  have tr0: "tr_inv (fire_timer t (store g)) (trace g)"
    by (rule tr_inv_shrink [OF gw_invD(2) [OF inv] pending_fire_subset])
  show "gw_inv (gateway_step lc (TimerFires t) g)"
  proof (cases "map_of (awaiting g) t")
    case None
    then have "AList.delete t (awaiting g) = awaiting g"
      by (simp add: map_of_eq_None_iff)
    with sa tr0 None show ?thesis by (simp add: eq gw_inv_def)
  next
    case (Some x)
    obtain req0 k where x: "x = (req0, k)" by (cases x)
    from sa tr_inv_respond [OF tr0] Some x show ?thesis
      by (simp add: eq gw_inv_def)
  qed
qed

text \<open>A \<open>request\<close> whose observer calls \<open>resolve\<close> during the broadcast. The record
  is not registered yet, so \<open>resolve\<close> finds its id only if another record with that id
  is pending.\<close>

lemma step_request_resolver_unknown:
  assumes inv: "gw_inv g"
    and fresh: "\<not> duplicate_id p (store g)"
    and rec: "rec = fst (create uuid now (p_request p) (p_timeoutMs p) (p_id p) (store g))"
    and unk: "map_of (pending (store g)) (record_id rec) = None"
  shows "gateway_step lc (Request req now uuid (Resolver rreq d rby) p) g =
     g\<lparr>store := snd (waitForDecision rec (p_timeoutMs p) (store g)),
       trace := trace g @
         [Broadcast (Requested (pending_item now rec)),
          Respond rreq (Failure ''unknown approval id'')],
       awaiting := AList.update (next_handle (store g)) (req, record_id rec) (awaiting g)\<rparr>"
    (is "_ = ?g'")
    and "gw_inv (gateway_step lc (Request req now uuid (Resolver rreq d rby) p) g)"
proof -
  let ?g1 = "g\<lparr>trace := trace g @ [Broadcast (Requested (pending_item now rec))]\<rparr>"
  have unk1: "map_of (pending (store ?g1)) (record_id rec) = None"
    using unk by simp
  have body: "handle_request req now uuid (Resolver rreq d rby) p g = ?g'"
    by (simp add: handle_request_fresh [OF fresh] Let_def rec [symmetric]
        handle_resolve_unknown [OF unk1] respond_def broadcast_def)
  have sa: "sa_inv (store ?g') (awaiting ?g')"
    using sa_inv_register [OF gw_invD(1) [OF inv]] by simp
  have "tr_inv (store g) (trace ?g')"
    using tr_inv_respond [OF tr_inv_requested_early [OF gw_invD(2) [OF inv]]] by simp
  moreover have "record_id rec \<in> set (requested_ids (trace ?g'))"
    by (simp add: requested_ids_append item_id_pending_item)
  ultimately have "tr_inv (snd (waitForDecision rec (p_timeoutMs p) (store g))) (trace ?g')"
    by (rule tr_inv_register)
  then have tr: "tr_inv (store ?g') (trace ?g')" by simp
  from sa tr have i: "gw_inv ?g'" by (simp add: gw_inv_def)
  then have "run_microtasks ?g' = ?g'" by (rule gw_inv_idle)
  with body show eq: "gateway_step lc (Request req now uuid (Resolver rreq d rby) p) g = ?g'"
    by (simp add: gateway_step_def)
  from i eq show "gw_inv (gateway_step lc (Request req now uuid (Resolver rreq d rby) p) g)"
    by simp
qed

lemma step_request_resolver_pending:
  assumes inv: "gw_inv g"
    and fresh: "\<not> duplicate_id p (store g)"
    and rec: "rec = fst (create uuid now (p_request p) (p_timeoutMs p) (p_id p) (store g))"
    and e: "map_of (pending (store g)) (record_id rec) = Some e"
    and aw: "map_of (awaiting g) (entry_resolve e) = Some (req0, record_id rec)"
    and st2: "st2 = snd (resolve (record_id rec) d rby now (store g))"
  shows "gw_inv (gateway_step lc (Request req now uuid (Resolver rreq d rby) p) g)"
proof -
  let ?i = "record_id rec"
  let ?h = "next_handle (store g)"
  let ?w = "entry_resolve e"
  let ?st3 = "snd (waitForDecision rec (p_timeoutMs p) st2)"
  let ?tr = "trace g @
         [Broadcast (Requested (pending_item now rec)),
          Broadcast (Resolved ?i d rby),
          Respond rreq Resolve_ok]"
  let ?b = "g\<lparr>store := ?st3, trace := ?tr,
       awaiting := AList.update ?h (req, ?i) (awaiting g)\<rparr>"
  let ?g' = "g\<lparr>store := ?st3, trace := ?tr @ [Respond req0 (Request_ok ?i (Some d))],
       awaiting := AList.update ?h (req, ?i) (AList.delete ?w (awaiting g))\<rparr>"
  let ?g1 = "g\<lparr>trace := trace g @ [Broadcast (Requested (pending_item now rec))]\<rparr>"
  note A = gw_invD(1) [OF inv]
  have h2: "next_handle st2 = ?h"
    by (simp add: st2 resolve_Some [OF e] call_resolve_fields finalize_fields)
  have e1: "map_of (pending (store ?g1)) ?i = Some e"
    using e by simp
  have body: "handle_request req now uuid (Resolver rreq d rby) p g = ?b"
    by (simp add: handle_request_fresh [OF fresh] Let_def rec [symmetric]
        handle_resolve_pending [OF e1] broadcast_def st2 [symmetric] h2)
  from sa_invD(4) [OF A aw] have wh: "?w \<noteq> ?h" by simp
  have log: "settled (store ?b) = settled (store g) @ [(?w, Some d)]"
    by (simp add: waitForDecision_fields st2 resolve_Some [OF e] call_resolve_fields
        finalize_fields)
  have old: "map_of (awaiting ?b) q = None" if "(q, v) \<in> set (settled (store g))" for q v
  proof -
    from store_invD(5) [OF sa_invD(1) [OF A] that] have "q \<noteq> ?h" by simp
    with sa_invD(3) [OF A that] show ?thesis by (simp add: update_conv')
  qed
  have awb: "map_of (awaiting ?b) ?w = Some (req0, ?i)"
    using aw wh by (simp add: update_conv')
  have "run_microtasks ?b = resume_one (?w, Some d) ?b"
    by (rule run_microtasks_last [OF log old])
  also have "\<dots> = ?g'"
    using awb wh by (simp add: resume_one_Some delete_update)
  finally have eq: "gateway_step lc (Request req now uuid (Resolver rreq d rby) p) g = ?g'"
    by (simp add: gateway_step_def body)
  have "sa_inv st2 (AList.delete ?w (awaiting g))"
    unfolding st2 by (rule sa_inv_resolve [OF A e])
  from sa_inv_register [OF this, of rec "p_timeoutMs p" req]
  have sa: "sa_inv (store ?g') (awaiting ?g')" by (simp add: h2)
  from e have mem: "?i \<in> fst ` set (pending (store g))"
    by (metis keys_map_of option.distinct(1))
  have "tr_inv (store g) (trace ?g')"
    using tr_inv_respond [OF tr_inv_respond [OF tr_inv_resolved
          [OF tr_inv_requested_early [OF gw_invD(2) [OF inv]] mem]]]
    by simp
  then have "tr_inv st2 (trace ?g')"
    by (rule tr_inv_shrink) (simp add: st2 pending_resolve_subset)
  moreover have "?i \<in> set (requested_ids (trace ?g'))"
    by (simp add: requested_ids_append item_id_pending_item)
  ultimately have "tr_inv ?st3 (trace ?g')" by (rule tr_inv_register)
  then have tr: "tr_inv (store ?g') (trace ?g')" by simp
  from sa tr eq show ?thesis by (simp add: gw_inv_def)
qed

lemma gw_inv_step:
  assumes inv: "gw_inv g"
  shows "gw_inv (gateway_step lc tk g)"
proof (cases tk)
  case (Request req now uuid lsn p)
  show ?thesis
  proof (cases "duplicate_id p (store g)")
    case True
    from step_request_dup(2) [OF inv True] Request show ?thesis by simp
  next
    case False
    show ?thesis
    proof (cases lsn)
      case Passive
      from step_request_passive(2) [OF inv False refl] Request Passive show ?thesis by simp
    next
      case (Resolver rreq d rby)
      let ?rec = "fst (create uuid now (p_request p) (p_timeoutMs p) (p_id p) (store g))"
      show ?thesis
      proof (cases "map_of (pending (store g)) (record_id ?rec)")
        case None
        from step_request_resolver_unknown(2) [OF inv False refl None] Request Resolver
        show ?thesis by simp
      next
        case (Some e)
        from sa_invD(2) [OF gw_invD(1) [OF inv] Some] obtain req0 where
          "map_of (awaiting g) (entry_resolve e) = Some (req0, record_id ?rec)" ..
        from step_request_resolver_pending [OF inv False refl Some this refl] Request Resolver
        show ?thesis by simp
      qed
    qed
  qed
next
  case (ResolveCall req now i d rby)
  show ?thesis
  proof (cases "map_of (pending (store g)) i")
    case None
    from step_resolve_unknown(2) [OF inv None] ResolveCall show ?thesis by simp
  next
    case (Some e)
    from sa_invD(2) [OF gw_invD(1) [OF inv] Some] obtain req0 where
      "map_of (awaiting g) (entry_resolve e) = Some (req0, i)" ..
    from step_resolve_pending(2) [OF inv Some this] ResolveCall show ?thesis by simp
  qed
next
  case (PendingCall req now detail keys)
  with step_pending [OF inv] show ?thesis by simp
next
  case (TimerFires t)
  show ?thesis
  proof (cases "map_of (timers (store g)) t")
    case None
    from step_timer_idle [OF inv None] inv TimerFires show ?thesis by simp
  next
    case (Some tm)
    from step_timer_armed(2) [OF inv Some] TimerFires show ?thesis by simp
  qed
qed

lemma gw_inv_empty: "gw_inv empty_gateway"
  by (simp add: gw_inv_def sa_inv_def tr_inv_def empty_gateway_def store_inv_empty
      requested_first_def) (simp add: empty_store_def)

lemma gw_inv_run: "gw_inv g \<Longrightarrow> gw_inv (run_gateway lc tks g)"
  unfolding run_gateway_def
  by (induction tks arbitrary: g) (simp_all add: gw_inv_step)

lemma gw_inv_reachable: "gw_inv (run_gateway lc tks empty_gateway)"
  by (rule gw_inv_run [OF gw_inv_empty])

section \<open>Ordering of broadcasts and responses\<close>


text \<open>
  C8. Spec-modelled handlers. In every reachable gateway state, each \<open>resolved\<close>
  broadcast in the trace is preceded by a \<open>requested\<close> broadcast for the same id. And
  when a pending id is resolved with decision \<open>d\<close>, a \<open>request\<close> call is suspended on
  the entry's promise for that id, and the trace grows by the \<open>resolved\<close> broadcast with
  the id and decision, then the response of the \<open>resolve\<close> call, then the response of
  that \<open>request\<close> call carrying the id and \<open>d\<close>.
\<close>

theorem requested_before_resolved:
  assumes reach: "g = run_gateway lc tks empty_gateway"
  shows "(\<forall>pre i d rby post. trace g = pre @ Broadcast (Resolved i d rby) # post \<longrightarrow>
            i \<in> set (requested_ids pre)) \<and>
         (\<forall>i e d rby rreq now. map_of (pending (store g)) i = Some e \<longrightarrow>
            (\<exists>req. map_of (awaiting g) (entry_resolve e) = Some (req, i) \<and>
               trace (gateway_step lc (ResolveCall rreq now i d rby) g) =
                 trace g @ [Broadcast (Resolved i d rby), Respond rreq Resolve_ok,
                            Respond req (Request_ok i (Some d))]))"
proof -
  from reach have inv: "gw_inv g" by (simp add: gw_inv_reachable)
  from gw_invD(2) [OF inv] have rf: "requested_first_from {} (trace g)"
    by (simp add: tr_inv_def requested_first_def)
  have 1: "\<forall>pre i d rby post. trace g = pre @ Broadcast (Resolved i d rby) # post \<longrightarrow>
            i \<in> set (requested_ids pre)"
  proof (intro allI impI)
    fix pre i d rby post
    assume "trace g = pre @ Broadcast (Resolved i d rby) # post"
    with rf have "requested_first_from {} (pre @ Broadcast (Resolved i d rby) # post)"
      by simp
    from requested_first_from_split [OF this] show "i \<in> set (requested_ids pre)" by simp
  qed
  have 2: "\<forall>i e d rby rreq now. map_of (pending (store g)) i = Some e \<longrightarrow>
            (\<exists>req. map_of (awaiting g) (entry_resolve e) = Some (req, i) \<and>
               trace (gateway_step lc (ResolveCall rreq now i d rby) g) =
                 trace g @ [Broadcast (Resolved i d rby), Respond rreq Resolve_ok,
                            Respond req (Request_ok i (Some d))])"
  proof (intro allI impI)
    fix i e d rby rreq now
    assume e: "map_of (pending (store g)) i = Some e"
    from sa_invD(2) [OF gw_invD(1) [OF inv] e] obtain req where
      aw: "map_of (awaiting g) (entry_resolve e) = Some (req, i)" ..
    from step_resolve_pending(1) [OF inv e aw, of lc rreq now d rby]
    have "trace (gateway_step lc (ResolveCall rreq now i d rby) g) =
        trace g @ [Broadcast (Resolved i d rby), Respond rreq Resolve_ok,
                   Respond req (Request_ok i (Some d))]"
      by simp
    with aw show "\<exists>req. map_of (awaiting g) (entry_resolve e) = Some (req, i) \<and>
               trace (gateway_step lc (ResolveCall rreq now i d rby) g) =
                 trace g @ [Broadcast (Resolved i d rby), Respond rreq Resolve_ok,
                            Respond req (Request_ok i (Some d))]"
      by blast
  qed
  from 1 2 show ?thesis by (intro conjI)
qed

theorem requested_before_resolved_witness:
  "trace (gateway_step localeCompare (ResolveCall ''req-3'' 5 ''dup-1'' Deny (Some ''CLI''))
            ex_gateway_dup) =
   trace ex_gateway_dup @
     [Broadcast (Resolved ''dup-1'' Deny (Some ''CLI'')), Respond ''req-3'' Resolve_ok,
      Respond ''req-1'' (Request_ok ''dup-1'' (Some Deny))]"
proof -
  let ?rec = "fst (create ''uuid-1'' 0 ex_request 10 (Some ''dup-1'') empty_store)"
  let ?e = "\<lparr>entry_record = ?rec, entry_resolve = 0, entry_timer = 0\<rparr>"
  have r: "ex_gateway_dup =
      run_gateway localeCompare [Request ''req-1'' 0 ''uuid-1'' Passive ex_params_dup] empty_gateway"
    by (simp add: run_gateway_def ex_gateway_dup_def)
  have i: "record_id ?rec = ''dup-1''"
    by (simp add: create_id trim_dup)
  have e: "map_of (pending (store ex_gateway_dup)) ''dup-1'' = Some ?e"
    by (simp add: ex_gateway_dup_eq waitForDecision_fields i) (simp add: empty_store_def)
  have aw: "map_of (awaiting ex_gateway_dup) (entry_resolve ?e) = Some (''req-1'', ''dup-1'')"
    by (simp add: ex_gateway_dup_eq)
  note th = requested_before_resolved [OF r, THEN conjunct2, rule_format, OF e,
      where d = Deny and rby = "Some ''CLI''" and rreq = "''req-3''" and now = 5]
  then obtain req where
    "map_of (awaiting ex_gateway_dup) (entry_resolve ?e) = Some (req, ''dup-1'')"
    and t: "trace (gateway_step localeCompare (ResolveCall ''req-3'' 5 ''dup-1'' Deny (Some ''CLI''))
            ex_gateway_dup) =
      trace ex_gateway_dup @
        [Broadcast (Resolved ''dup-1'' Deny (Some ''CLI'')), Respond ''req-3'' Resolve_ok,
         Respond req (Request_ok ''dup-1'' (Some Deny))]"
    by blast
  with aw have "req = ''req-1''" by simp
  with t show ?thesis by simp
qed


end
